theory Spec2Isabelle
  imports Main
begin

section \<open>Python strings\<close>

text \<open>
  A Python \<^verbatim>\<open>str\<close> is a sequence of Unicode code points; a code point is a natural
  number here, and \<open>lit\<close> turns an ASCII literal into its code points.

  The behaviour of \<^verbatim>\<open>str.isspace\<close>, \<^verbatim>\<open>str.isalnum\<close> and \<^verbatim>\<open>str.lower\<close> on ASCII is
  written out. On code points from 128 on it is fixed by the Unicode character database of
  the Python runtime, which is not part of the repository: it is the parameter \<open>U\<close> of
  every function that depends on it, and every theorem holds for all \<open>U\<close>.
\<close>

type_synonym str = "nat list"

definition lit :: "string \<Rightarrow> str" where
  "lit s = map of_char s"

record ucd =
  isspace_u :: "nat \<Rightarrow> bool"
  isalnum_u :: "nat \<Rightarrow> bool"
  lower_u :: "str \<Rightarrow> str"

text \<open>A database in which no code point from 128 on is white space or alphanumeric, and
  \<^verbatim>\<open>lower\<close> leaves a text with such a code point alone; used for concrete runs only.\<close>

definition ascii_ucd :: ucd where
  "ascii_ucd = \<lparr>isspace_u = (\<lambda>c. False), isalnum_u = (\<lambda>c. False), lower_u = (\<lambda>s. s)\<rparr>"

definition is_ascii :: "str \<Rightarrow> bool" where
  "is_ascii s = list_all (\<lambda>c. c < 128) s"

text \<open>\<^verbatim>\<open>str.isspace\<close> on one character: tab, line feed, vertical tab, form feed, carriage
  return, the four separators 28 to 31 and the space.\<close>

definition is_space :: "ucd \<Rightarrow> nat \<Rightarrow> bool" where
  "is_space U c = (if c < 128 then (9 \<le> c \<and> c \<le> 13) \<or> (28 \<le> c \<and> c \<le> 32) else isspace_u U c)"

definition ascii_alnum :: "nat \<Rightarrow> bool" where
  "ascii_alnum c = ((48 \<le> c \<and> c \<le> 57) \<or> (65 \<le> c \<and> c \<le> 90) \<or> (97 \<le> c \<and> c \<le> 122))"

definition ascii_lower :: "nat \<Rightarrow> nat" where
  "ascii_lower c = (if 65 \<le> c \<and> c \<le> 90 then c + 32 else c)"

text \<open>\<^verbatim>\<open>s.lower()\<close>\<close>

definition py_lower :: "ucd \<Rightarrow> str \<Rightarrow> str" where
  "py_lower U s = (if is_ascii s then map ascii_lower s else lower_u U s)"

text \<open>\<^verbatim>\<open>s.strip(chars)\<close> removes the leading and the trailing characters that are in the
  set; \<^verbatim>\<open>s.strip()\<close> removes white space.\<close>

definition strip_chars :: "(nat \<Rightarrow> bool) \<Rightarrow> str \<Rightarrow> str" where
  "strip_chars P s = rev (dropWhile P (rev (dropWhile P s)))"

definition py_strip :: "ucd \<Rightarrow> str \<Rightarrow> str" where
  "py_strip U s = strip_chars (is_space U) s"

text \<open>\<^verbatim>\<open>s.split()\<close>: the maximal runs of characters that are not white space; \<open>cur\<close> is
  the run being read.\<close>

fun split_acc :: "ucd \<Rightarrow> str \<Rightarrow> str \<Rightarrow> str list" where
  "split_acc U cur [] = (if cur = [] then [] else [cur])"
| "split_acc U cur (c # cs) =
     (if is_space U c
      then (if cur = [] then split_acc U [] cs else cur # split_acc U [] cs)
      else split_acc U (cur @ [c]) cs)"

definition py_split :: "ucd \<Rightarrow> str \<Rightarrow> str list" where
  "py_split U s = split_acc U [] s"

section \<open>Classifier gateway: classify technology in analyze.py\<close>

definition TECH_LABELS :: "str list" where
  "TECH_LABELS = [lit ''database'', lit ''networking'', lit ''authentication'',
                  lit ''api'', lit ''storage'']"

definition ALLOWED :: "str set" where
  "ALLOWED = set (map (\<lambda>l. map ascii_lower l) TECH_LABELS)"

definition UNCLASSIFIED_LABEL :: str where
  "UNCLASSIFIED_LABEL = lit ''unclassified''"

text \<open>
  What one call of \<^verbatim>\<open>client.chat.completions.create\<close> does: it raises (network failure,
  non-2xx status, timeout, a response without choices), or it returns a response whose
  message content is a text or \<^verbatim>\<open>None\<close>. The external service is a function of the
  number of calls made so far and of the text sent. What is counted are the calls of
  \<^verbatim>\<open>create\<close>: whether the client library sends its HTTP request again inside one call
  is not modelled.
\<close>

datatype reply = Raises | Content "str option"

type_synonym service = "nat \<Rightarrow> str \<Rightarrow> reply"

datatype py_exc = IndexError | APIError

text \<open>The characters of \<^verbatim>\<open>strip("`\"' ")\<close>: backtick, double quote, single quote, space.\<close>

definition quote_chars :: "nat \<Rightarrow> bool" where
  "quote_chars c = (c = 96 \<or> c = 34 \<or> c = 39 \<or> c = 32)"

text \<open>
  The last two lines of \<^verbatim>\<open>ask_once\<close>:
  \<^verbatim>\<open>raw = (content or "").strip().lower()\<close>,
  \<^verbatim>\<open>return raw.strip("`\"' ").split()[0] if raw else ""\<close>.
  Indexing the empty token list raises \<^verbatim>\<open>IndexError\<close>.
\<close>

definition normalize_content :: "ucd \<Rightarrow> str option \<Rightarrow> py_exc + str" where
  "normalize_content U content =
     (let raw = py_lower U (py_strip U (case content of None \<Rightarrow> [] | Some c \<Rightarrow> c))
      in if raw = [] then Inr []
         else (case py_split U (strip_chars quote_chars raw) of
                 [] \<Rightarrow> Inl IndexError
               | tok # _ \<Rightarrow> Inr tok))"

text \<open>\<^verbatim>\<open>ask_once\<close>: one call of the client; the second component counts the calls made.\<close>

definition ask_once :: "ucd \<Rightarrow> service \<Rightarrow> nat \<Rightarrow> str \<Rightarrow> (py_exc + str) \<times> nat" where
  "ask_once U svc n text =
     (case svc n text of
        Raises \<Rightarrow> (Inl APIError, Suc n)
      | Content c \<Rightarrow> (normalize_content U c, Suc n))"

text \<open>
  \<^verbatim>\<open>classify_technology\<close>. The \<^verbatim>\<open>try\<close> block holds both calls of \<^verbatim>\<open>ask_once\<close>, and
  \<^verbatim>\<open>except Exception\<close> returns the fallback label: an exception in the first call leaves
  the block before the second call is reached. The result is the label and the number of
  calls made.
\<close>

definition classify_technology :: "ucd \<Rightarrow> service \<Rightarrow> nat \<Rightarrow> str \<Rightarrow> str \<times> nat" where
  "classify_technology U svc n text =
     (if text = [] \<or> py_strip U text = [] then (UNCLASSIFIED_LABEL, n)
      else (case ask_once U svc n text of
              (Inl e, n1) \<Rightarrow> (UNCLASSIFIED_LABEL, n1)
            | (Inr label, n1) \<Rightarrow>
                if label \<in> ALLOWED then (label, n1)
                else (case ask_once U svc n1 text of
                        (Inl e, n2) \<Rightarrow> (UNCLASSIFIED_LABEL, n2)
                      | (Inr label2, n2) \<Rightarrow>
                          (if label2 \<in> ALLOWED then label2 else UNCLASSIFIED_LABEL, n2))))"

text \<open>Services for concrete runs: one that gives the same answer to every call, one whose
  first call fails and whose later calls answer \<^verbatim>\<open>database\<close>, and one whose first
  answer is two double quotes and whose later answers are \<^verbatim>\<open>database\<close>.\<close>

definition always_says :: "str \<Rightarrow> service" where
  "always_says s = (\<lambda>n t. Content (Some s))"

definition flaky_service :: service where
  "flaky_service = (\<lambda>n t. if n = 0 then Raises else Content (Some (lit ''database'')))"

definition quoting_service :: service where
  "quoting_service = (\<lambda>n t. if n = 0 then Content (Some [34, 34])
                              else Content (Some (lit ''database'')))"

text \<open>The first token of a text that white space delimits, in the words of the
  specification: leading white space is skipped, and the token ends before the next
  white space.\<close>

definition first_token :: "ucd \<Rightarrow> str \<Rightarrow> str" where
  "first_token U x = takeWhile (\<lambda>c. \<not> is_space U c) (dropWhile (is_space U) x)"

text \<open>Backtick, double quote and single quote: the quoting characters of \<open>quote_chars\<close>
  that are not white space.\<close>

definition quote_only :: "nat \<Rightarrow> bool" where
  "quote_only c = (c = 96 \<or> c = 34 \<or> c = 39)"

section \<open>Entity extractor: extract servers in analyze.py\<close>

text \<open>
  \<^verbatim>\<open>SRV_REGEX = re.compile(r"\bsrv-[a-z0-9]{2,10}\b", flags=re.IGNORECASE)\<close> on a
  \<^verbatim>\<open>str\<close> pattern.

  A word character (\<^verbatim>\<open>\w\<close>) is an alphanumeric character or the underscore.
\<close>

definition is_word :: "ucd \<Rightarrow> nat \<Rightarrow> bool" where
  "is_word U c = (if c < 128 then ascii_alnum c \<or> c = 95 else isalnum_u U c)"

text \<open>\<^verbatim>\<open>\b\<close> at position \<open>i\<close>: exactly one of the characters before and after the
  position is a word character; there is no character before position 0 and none after
  the end.\<close>

definition at_boundary :: "ucd \<Rightarrow> str \<Rightarrow> nat \<Rightarrow> bool" where
  "at_boundary U t i =
     ((0 < i \<and> i \<le> length t \<and> is_word U (t ! (i - 1))) \<noteq> (i < length t \<and> is_word U (t ! i)))"

text \<open>
  The characters that the literals and the class match under \<^verbatim>\<open>re.IGNORECASE\<close>. As the
  documentation of the flag says, a Unicode pattern \<^verbatim>\<open>[a-z]\<close> then matches the 52 ASCII
  letters and four more letters: 304 (capital I with dot above), 305 (dotless i), 383
  (long s) and 8490 (Kelvin sign); the literal \<^verbatim>\<open>s\<close> matches the long s as well.
\<close>

definition lit_s :: "nat \<Rightarrow> bool" where
  "lit_s c = (c = 115 \<or> c = 83 \<or> c = 383)"

definition lit_r :: "nat \<Rightarrow> bool" where
  "lit_r c = (c = 114 \<or> c = 82)"

definition lit_v :: "nat \<Rightarrow> bool" where
  "lit_v c = (c = 118 \<or> c = 86)"

definition srv_class :: "nat \<Rightarrow> bool" where
  "srv_class c = (ascii_alnum c \<or> c = 304 \<or> c = 305 \<or> c = 383 \<or> c = 8490)"

text \<open>The greedy \<^verbatim>\<open>{2,10}\<close>: the class is matched as often as possible, at most ten
  times, from position \<open>j\<close>.\<close>

definition class_run :: "str \<Rightarrow> nat \<Rightarrow> nat" where
  "class_run t j = min 10 (length (takeWhile srv_class (drop j t)))"

text \<open>Backtracking: with \<open>n\<close> repetitions the final \<^verbatim>\<open>\b\<close> is tried; when it fails, one
  repetition is given back, down to two.\<close>

fun backtrack :: "ucd \<Rightarrow> str \<Rightarrow> nat \<Rightarrow> nat \<Rightarrow> nat option" where
  "backtrack U t j 0 = None"
| "backtrack U t j (Suc n) =
     (if Suc n < 2 then None
      else if at_boundary U t (j + Suc n) then Some (j + Suc n)
      else backtrack U t j n)"

text \<open>The match that starts at position \<open>i\<close>, if there is one: the position of its end.\<close>

definition match_at :: "ucd \<Rightarrow> str \<Rightarrow> nat \<Rightarrow> nat option" where
  "match_at U t i =
     (if at_boundary U t i \<and> i + 4 \<le> length t \<and> lit_s (t ! i) \<and> lit_r (t ! (i + 1))
         \<and> lit_v (t ! (i + 2)) \<and> t ! (i + 3) = 45
      then backtrack U t (i + 4) (class_run t (i + 4))
      else None)"

text \<open>
  \<^verbatim>\<open>SRV_REGEX.finditer(text)\<close> from position \<open>i\<close>: the start positions are tried from left
  to right; after a match the search goes on at the end of the match. (A match has at
  least six characters, so no start position at or after the end of the text is tried.)
  The result is the list of the spans (start, end) of the matches.
\<close>

function finditer :: "ucd \<Rightarrow> str \<Rightarrow> nat \<Rightarrow> (nat \<times> nat) list" where
  "finditer U t i =
     (if length t \<le> i then []
      else (case match_at U t i of
              None \<Rightarrow> finditer U t (Suc i)
            | Some e \<Rightarrow> (i, e) # finditer U t e))"
  by pat_completeness auto
termination
proof (relation "measure (\<lambda>(U, t, i). length t - i)")
  show "wf (measure (\<lambda>(U, t, i). length t - i))" by simp
next
  fix U :: ucd and t :: str and i :: nat
  assume "\<not> length t \<le> i" and "match_at U t i = None"
  then show "((U, t, Suc i), (U, t, i)) \<in> measure (\<lambda>(U, t, i). length t - i)" by simp
next
  fix U :: ucd and t :: str and i :: nat and e :: nat
  assume lt: "\<not> length t \<le> i" and m: "match_at U t i = Some e"
  have bt: "backtrack U t j n = Some x \<Longrightarrow> j < x" for j n x
    by (induction n) (auto split: if_splits)
  from m have "i + 4 < e"
    by (auto simp: match_at_def split: if_splits dest: bt)
  with lt show "((U, t, e), (U, t, i)) \<in> measure (\<lambda>(U, t, i). length t - i)" by simp
qed

text \<open>\<^verbatim>\<open>text[i:e]\<close>\<close>

definition slice :: "str \<Rightarrow> nat \<Rightarrow> nat \<Rightarrow> str" where
  "slice t i e = take (e - i) (drop i t)"

definition extract_servers :: "ucd \<Rightarrow> str \<Rightarrow> str list" where
  "extract_servers U text =
     (if text = [] then []
      else map (\<lambda>(i, e). py_lower U (slice text i e)) (finditer U text 0))"

section \<open>Enrichment pipeline and aggregator: analyze.py\<close>

text \<open>
  An item of the consolidated collection, as \<^verbatim>\<open>fetch_issues.py\<close> writes it. A key is
  \<^verbatim>\<open>None\<close> when the field is missing or null.
\<close>

record item =
  key :: "str option"
  itype :: "str option"
  summary :: str
  description :: str

text \<open>
  A log is the list of its lines. A line is the record that \<^verbatim>\<open>json.loads\<close> reads from
  it, or it does not parse (or is not an object): every reader of a log skips such a line.
  An absent log file reads as the empty list. A missing \<^verbatim>\<open>servers\<close> field reads as the
  empty list and a missing \<^verbatim>\<open>label\<close> as the empty text, which are as falsy as they are.
\<close>

datatype 'a line = Unparsable | Parsed 'a

record server_rec =
  s_key :: "str option"
  servers :: "str list"

record tech_rec =
  t_key :: "str option"
  label :: str

text \<open>The files of the output directory: the two logs, and the three artifacts of the
  aggregator, absent before the first aggregation.\<close>

record adisk =
  TECH_PER_ISSUE :: "tech_rec line list"
  SERVERS_PER_ISSUE :: "server_rec line list"
  TECH_COUNTS :: "(str \<times> nat) list option"
  SERVER_COUNTS :: "(str \<times> nat) list option"
  UNRESOLVED_JSON :: "(str option \<times> str) list option"

definition empty_adisk :: adisk where
  "empty_adisk = \<lparr>TECH_PER_ISSUE = [], SERVERS_PER_ISSUE = [], TECH_COUNTS = None,
                   SERVER_COUNTS = None, UNRESOLVED_JSON = None\<rparr>"

text \<open>\<^verbatim>\<open>load_processed_keys_from_jsonl\<close>: the truthy keys of the lines that parse; \<open>kf\<close>
  reads the key field.\<close>

definition key_step :: "('a \<Rightarrow> str option) \<Rightarrow> 'a line \<Rightarrow> str set \<Rightarrow> str set" where
  "key_step kf l keys =
     (case l of
        Unparsable \<Rightarrow> keys
      | Parsed r \<Rightarrow> (case kf r of None \<Rightarrow> keys | Some k \<Rightarrow> if k = [] then keys else insert k keys))"

definition load_processed_keys_from_jsonl :: "('a \<Rightarrow> str option) \<Rightarrow> 'a line list \<Rightarrow> str set" where
  "load_processed_keys_from_jsonl kf lines = fold (key_step kf) lines {}"

text \<open>\<^verbatim>\<open>append_jsonl\<close>\<close>

definition append_jsonl :: "'a line list \<Rightarrow> 'a \<Rightarrow> 'a line list" where
  "append_jsonl lines obj = lines @ [Parsed obj]"

text \<open>
  A \<^verbatim>\<open>Counter\<close> is a dictionary, which keeps its keys in the order of their first
  insertion. \<^verbatim>\<open>most_common()\<close> sorts the entries by count, largest first, with a stable
  sort: entries of equal count stay in insertion order.
\<close>

type_synonym counter = "(str \<times> nat) list"

fun counter_add :: "str \<Rightarrow> counter \<Rightarrow> counter" where
  "counter_add k [] = [(k, 1)]"
| "counter_add k ((k', n) # c) = (if k = k' then (k', Suc n) # c else (k', n) # counter_add k c)"

definition counter_update :: "str list \<Rightarrow> counter \<Rightarrow> counter" where
  "counter_update ks c = fold counter_add ks c"

definition most_common :: "counter \<Rightarrow> counter" where
  "most_common c = sort_key (\<lambda>(k, n). - int n) c"

text \<open>The two passes of \<^verbatim>\<open>aggregate_outputs\<close> over the lines of the logs.\<close>

definition tech_step :: "tech_rec line \<Rightarrow> counter \<Rightarrow> counter" where
  "tech_step l tech_counter =
     (case l of
        Unparsable \<Rightarrow> tech_counter
      | Parsed r \<Rightarrow> if label r \<noteq> [] then counter_update [label r] tech_counter else tech_counter)"

definition server_step ::
  "server_rec line \<Rightarrow> counter \<times> str option set \<Rightarrow> counter \<times> str option set" where
  "server_step l st =
     (case l of
        Unparsable \<Rightarrow> st
      | Parsed r \<Rightarrow>
          if servers r \<noteq> []
          then (counter_update (servers r) (fst st), insert (s_key r) (snd st))
          else st)"

definition aggregate_outputs :: "item list \<Rightarrow> adisk \<Rightarrow> adisk" where
  "aggregate_outputs issues_all d =
     (let tech_counter = fold tech_step (TECH_PER_ISSUE d) [];
          sv = fold server_step (SERVERS_PER_ISSUE d) ([], {});
          server_counter = fst sv;
          keys_with_servers = snd sv;
          unresolved = map (\<lambda>i. (key i, summary i))
                           (filter (\<lambda>i. key i \<notin> keys_with_servers) issues_all)
      in d\<lparr>TECH_COUNTS := Some (most_common tech_counter),
           SERVER_COUNTS := Some (most_common server_counter),
           UNRESOLVED_JSON := Some unresolved\<rparr>)"

text \<open>\<^verbatim>\<open>issues = issues_all[:ISSUE_LIMIT] if ISSUE_LIMIT > 0 else issues_all\<close>\<close>

definition select_issues :: "int \<Rightarrow> item list \<Rightarrow> item list" where
  "select_issues ISSUE_LIMIT issues_all =
     (if ISSUE_LIMIT > 0 then take (nat ISSUE_LIMIT) issues_all else issues_all)"

text \<open>
  The loop of \<^verbatim>\<open>main\<close> over the selected issues. \<open>n\<close> counts the calls of the
  classification service. The loop is left early by \<^verbatim>\<open>KeyboardInterrupt\<close> or by any other
  exception; what is on disk then is what the appends made so far have written. \<open>b\<close> is
  the number of appends after which that happens (\<open>None\<close>: the loop runs to its end):
  with \<open>Some 0\<close> the next append is not made and the loop is left.
\<close>

definition tick :: "nat option \<Rightarrow> nat option" where
  "tick b = map_option (\<lambda>k. k - 1) b"

text \<open>\<^verbatim>\<open>text = f"{summary}\n{desc}".strip()\<close>\<close>

definition issue_text :: "ucd \<Rightarrow> item \<Rightarrow> str" where
  "issue_text U issue = py_strip U (summary issue @ [10] @ description issue)"

text \<open>\<^verbatim>\<open>servers = extract_servers(text)\<close>,
  \<^verbatim>\<open>append_jsonl(SERVERS_PER_ISSUE, {"key": key, "servers": servers})\<close>\<close>

definition log_servers :: "ucd \<Rightarrow> item \<Rightarrow> adisk \<Rightarrow> adisk" where
  "log_servers U issue d =
     d\<lparr>SERVERS_PER_ISSUE := append_jsonl (SERVERS_PER_ISSUE d)
          \<lparr>s_key = key issue, servers = extract_servers U (issue_text U issue)\<rparr>\<rparr>"

text \<open>\<^verbatim>\<open>append_jsonl(TECH_PER_ISSUE, {"key": key, "label": label})\<close>\<close>

definition log_label :: "item \<Rightarrow> str \<Rightarrow> adisk \<Rightarrow> adisk" where
  "log_label issue l d =
     d\<lparr>TECH_PER_ISSUE := append_jsonl (TECH_PER_ISSUE d) \<lparr>t_key = key issue, label = l\<rparr>\<rparr>"

fun process_issues ::
  "ucd \<Rightarrow> service \<Rightarrow> str set \<Rightarrow> item list \<Rightarrow> adisk \<Rightarrow> nat \<Rightarrow> nat option \<Rightarrow> adisk \<times> nat" where
  "process_issues U svc processed_complete [] d n b = (d, n)"
| "process_issues U svc processed_complete (issue # rest) d n b =
     (if (case key issue of None \<Rightarrow> False | Some k \<Rightarrow> k \<in> processed_complete)
      then process_issues U svc processed_complete rest d n b
      else if b = Some 0 then (d, n)
      else
        (let d1 = log_servers U issue d;
             cl = classify_technology U svc n (issue_text U issue)
         in if tick b = Some 0 then (d1, snd cl)
            else process_issues U svc processed_complete rest
                   (log_label issue (fst cl) d1) (snd cl) (tick (tick b))))"

text \<open>
  \<^verbatim>\<open>main\<close>, given the collection read from the input file: the aggregator runs after the
  loop however the loop was left, and on the whole collection.
\<close>

definition main ::
  "ucd \<Rightarrow> int \<Rightarrow> service \<Rightarrow> nat option \<Rightarrow> item list \<Rightarrow> adisk \<Rightarrow> adisk" where
  "main U ISSUE_LIMIT svc b issues_all d =
     (let issues = select_issues ISSUE_LIMIT issues_all;
          processed_tech = load_processed_keys_from_jsonl t_key (TECH_PER_ISSUE d);
          processed_servers = load_processed_keys_from_jsonl s_key (SERVERS_PER_ISSUE d);
          processed_complete = processed_tech \<inter> processed_servers
      in aggregate_outputs issues_all
           (fst (process_issues U svc processed_complete issues d 0 b)))"

text \<open>One run of the analysis, and a sequence of runs on the same output directory.\<close>

record run =
  run_limit :: int
  run_service :: service
  run_stop :: "nat option"
  run_collection :: "item list"

definition main_runs :: "ucd \<Rightarrow> run list \<Rightarrow> adisk \<Rightarrow> adisk" where
  "main_runs U rs d =
     fold (\<lambda>r. main U (run_limit r) (run_service r) (run_stop r) (run_collection r)) rs d"

text \<open>The keys that the lines of a log carry.\<close>

fun parsed :: "'a line list \<Rightarrow> 'a list" where
  "parsed [] = []"
| "parsed (Unparsable # ls) = parsed ls"
| "parsed (Parsed r # ls) = r # parsed ls"

definition tech_keys :: "adisk \<Rightarrow> str option set" where
  "tech_keys d = set (map t_key (parsed (TECH_PER_ISSUE d)))"

definition server_keys :: "adisk \<Rightarrow> str option set" where
  "server_keys d = set (map s_key (parsed (SERVERS_PER_ISSUE d)))"

text \<open>Two tickets, two runs over them (one left after its first append, one complete)
  and a directory with stale artifacts, for concrete runs.\<close>

definition ticket_A :: item where
  "ticket_A = \<lparr>key = Some (lit ''TON-1''), itype = Some (lit ''Bug''),
               summary = lit ''srv-ab1 is down'', description = lit ''database timeout''\<rparr>"

definition ticket_B :: item where
  "ticket_B = \<lparr>key = Some (lit ''TON-2''), itype = Some (lit ''Task''),
               summary = lit ''login fails'', description = lit ''nothing else''\<rparr>"

definition stopped_run :: run where
  "stopped_run = \<lparr>run_limit = 0, run_service = always_says (lit ''database''),
                   run_stop = Some 1, run_collection = [ticket_A, ticket_B]\<rparr>"

definition full_run :: run where
  "full_run = \<lparr>run_limit = 0, run_service = always_says (lit ''database''),
                run_stop = None, run_collection = [ticket_A, ticket_B]\<rparr>"

definition stale_adisk :: adisk where
  "stale_adisk = (log_servers ascii_ucd ticket_A empty_adisk)
     \<lparr>TECH_COUNTS := Some [(lit ''stale'', 7)], SERVER_COUNTS := Some [(lit ''srv-old'', 9)],
      UNRESOLVED_JSON := Some []\<rparr>"

section \<open>Fetch pipeline: fetch issues\<close>

text \<open>
  The files of the fetch pipeline: the partial log (one line per saved issue; a blank line
  or a line that does not parse is \<open>Unparsable\<close>, and both readers of the log skip it),
  the checkpoint, absent or unreadable as \<open>None\<close>, and the consolidated collection.
  A line that holds JSON other than an object is not modelled: the pipeline writes none.
\<close>

record checkpoint =
  cp_jql :: str
  cp_page_size :: nat
  nextPageToken :: "str option"
  saved_unique :: nat
  page_index :: nat
  isLast :: bool

record fdisk =
  partial :: "item line list"
  checkpoint_file :: "checkpoint option"
  out_json :: "item list option"

definition empty_fdisk :: fdisk where
  "empty_fdisk = \<lparr>partial = [], checkpoint_file = None, out_json = None\<rparr>"

text \<open>
  The answer to one page request. \<open>HTTPError\<close> is what \<^verbatim>\<open>raise_for_status\<close> raises for
  a status from 400 on; \<open>OtherError\<close> is any other exception of \<^verbatim>\<open>_post\<close> (connection
  failure, timeout, a body that is not JSON). A page carries the objects that the loop
  builds from its issues (\<^verbatim>\<open>key\<close>, \<^verbatim>\<open>type\<close>, \<^verbatim>\<open>summary or ""\<close>, and the description
  as \<^verbatim>\<open>adf_to_text\<close> flattens it, which is not modelled), the value of
  \<^verbatim>\<open>data.get("nextPageToken")\<close> and the truth value of \<^verbatim>\<open>data.get("isLast", False)\<close>.

  The remote source is a function of the number of requests made so far in the run and of
  the cursor sent with the request (\<open>None\<close>: no cursor is sent).
\<close>

record page =
  issues :: "item list"
  next_token :: "str option"
  is_last :: bool

datatype response = HTTPError | OtherError | Page page

type_synonym server = "nat \<Rightarrow> str option \<Rightarrow> response"

text \<open>A key is usable when it is truthy: present and not the empty text.\<close>

definition truthy :: "str option \<Rightarrow> bool" where
  "truthy k = (case k of None \<Rightarrow> False | Some s \<Rightarrow> s \<noteq> [])"

text \<open>\<^verbatim>\<open>load_saved_keys\<close>: the set of the keys of the log and the number of lines that
  carry one.\<close>

definition saved_step :: "item line \<Rightarrow> str set \<times> nat \<Rightarrow> str set \<times> nat" where
  "saved_step l acc =
     (case l of
        Unparsable \<Rightarrow> acc
      | Parsed obj \<Rightarrow>
          (case key obj of
             None \<Rightarrow> acc
           | Some k \<Rightarrow> if k = [] then acc else (insert k (fst acc), Suc (snd acc))))"

definition load_saved_keys :: "item line list \<Rightarrow> str set \<times> nat" where
  "load_saved_keys lines = fold saved_step lines ({}, 0)"

text \<open>\<^verbatim>\<open>append_issue\<close>\<close>

definition append_issue :: "item line list \<Rightarrow> item \<Rightarrow> item line list" where
  "append_issue lines issue_obj = lines @ [Parsed issue_obj]"


text \<open>
  The variables of \<^verbatim>\<open>fetch_all_basic_resumable\<close> and the files. \<open>requests\<close> counts the
  requests of the run. The run is left by \<^verbatim>\<open>KeyboardInterrupt\<close> after \<open>budget\<close> writes
  to the files (\<open>None\<close>: never); an append and the replacement of the checkpoint are one
  write each. \<open>received\<close> is not a variable of the code: it records the issues of the
  pages received so far, to state what a run has seen.
\<close>

record fstate =
  disk :: fdisk
  saved_keys :: "str set"
  token :: "str option"
  st_page_index :: nat
  requests :: nat
  budget :: "nat option"
  received :: "item list"

text \<open>How the loop is left: by \<^verbatim>\<open>break\<close> on an empty page, by \<^verbatim>\<open>break\<close> on the
  is-last flag, by the interrupt, by an exception that propagates; \<open>Running\<close>: it has not
  been left after the number of requests considered.\<close>

datatype outcome = NoMoreIssues | IsLastPage | Interrupted | Fatal | Running

text \<open>The loop over the issues of a page. The second component says that the interrupt
  arrived.\<close>

fun save_issues :: "item list \<Rightarrow> fstate \<Rightarrow> fstate \<times> bool" where
  "save_issues [] st = (st, False)"
| "save_issues (obj # rest) st =
     (case key obj of
        None \<Rightarrow> save_issues rest st
      | Some k \<Rightarrow>
          if k = [] then save_issues rest st
          else if k \<in> saved_keys st then save_issues rest st
          else if budget st = Some 0 then (st, True)
          else save_issues rest
                 (st\<lparr>disk := (disk st)\<lparr>partial := append_issue (partial (disk st)) obj\<rparr>,
                     saved_keys := insert k (saved_keys st),
                     budget := tick (budget st)\<rparr>))"

text \<open>\<^verbatim>\<open>write_checkpoint\<close> replaces the file.\<close>

definition write_checkpoint :: "fdisk \<Rightarrow> checkpoint \<Rightarrow> fdisk" where
  "write_checkpoint d data = d\<lparr>checkpoint_file := Some data\<rparr>"

text \<open>The cursor that the request carries: \<^verbatim>\<open>if token: payload["nextPageToken"] = token\<close>.\<close>

definition sent_token :: "str option \<Rightarrow> str option" where
  "sent_token tok = (if truthy tok then tok else None)"

text \<open>
  The end of the loop body after the issues of a page have been saved:
  \<^verbatim>\<open>page_index += 1\<close>, \<^verbatim>\<open>token = data.get("nextPageToken")\<close>, and
  \<^verbatim>\<open>write_checkpoint\<close> with the new cursor, the number of known keys, the page index and
  the is-last flag of the page.
\<close>

definition after_page :: "str \<Rightarrow> nat \<Rightarrow> page \<Rightarrow> fstate \<Rightarrow> fstate" where
  "after_page jql page_size data st1 =
     st1\<lparr>st_page_index := Suc (st_page_index st1),
         token := next_token data,
         budget := tick (budget st1),
         disk := write_checkpoint (disk st1)
                   \<lparr>cp_jql = jql, cp_page_size = page_size,
                    nextPageToken = next_token data,
                    saved_unique = card (saved_keys st1),
                    page_index = Suc (st_page_index st1),
                    isLast = is_last data\<rparr>\<rparr>"

text \<open>
  The \<^verbatim>\<open>while True\<close> loop; the first argument bounds the number of requests, and
  \<open>Running\<close> is the result when the bound is reached.
\<close>

fun fetch_loop :: "nat \<Rightarrow> server \<Rightarrow> str \<Rightarrow> nat \<Rightarrow> fstate \<Rightarrow> outcome \<times> fstate" where
  "fetch_loop 0 srv jql page_size st = (Running, st)"
| "fetch_loop (Suc fuel) srv jql page_size st =
     (if budget st = Some 0 then (Interrupted, st)
      else
        (case srv (requests st) (sent_token (token st)) of
           HTTPError \<Rightarrow>
             if token st \<noteq> None
             then fetch_loop fuel srv jql page_size
                    (st\<lparr>token := None, requests := Suc (requests st)\<rparr>)
             else (Fatal, st\<lparr>requests := Suc (requests st)\<rparr>)
         | OtherError \<Rightarrow> (Fatal, st\<lparr>requests := Suc (requests st)\<rparr>)
         | Page data \<Rightarrow>
             if issues data = [] then (NoMoreIssues, st\<lparr>requests := Suc (requests st)\<rparr>)
             else
               (case save_issues (issues data)
                       (st\<lparr>requests := Suc (requests st),
                           received := received st @ issues data\<rparr>) of
                  (st1, True) \<Rightarrow> (Interrupted, st1)
                | (st1, False) \<Rightarrow>
                    if budget st1 = Some 0 then (Interrupted, st1)
                    else if is_last data then (IsLastPage, after_page jql page_size data st1)
                    else fetch_loop fuel srv jql page_size (after_page jql page_size data st1))))"

text \<open>\<^verbatim>\<open>fetch_all_basic_resumable\<close>: the known keys are read from the log and the cursor
  from the checkpoint, then the loop runs.\<close>

definition initial_state :: "bool \<Rightarrow> nat option \<Rightarrow> fdisk \<Rightarrow> fstate" where
  "initial_state try_use_checkpoint_token b d =
     \<lparr>disk = d,
      saved_keys = fst (load_saved_keys (partial d)),
      token = (case checkpoint_file d of
                 None \<Rightarrow> None
               | Some cp \<Rightarrow> if try_use_checkpoint_token then nextPageToken cp else None),
      st_page_index = 0,
      requests = 0,
      budget = b,
      received = []\<rparr>"

definition fetch_all_basic_resumable ::
  "nat \<Rightarrow> server \<Rightarrow> str \<Rightarrow> nat \<Rightarrow> bool \<Rightarrow> nat option \<Rightarrow> fdisk \<Rightarrow> outcome \<times> fstate" where
  "fetch_all_basic_resumable fuel srv jql page_size try_use_checkpoint_token b d =
     fetch_loop fuel srv jql page_size (initial_state try_use_checkpoint_token b d)"


record fetch_run =
  run_fuel :: nat
  run_server :: server
  run_jql :: str
  run_page_size :: nat
  run_interrupt :: "nat option"

definition run_loop :: "fetch_run \<Rightarrow> fdisk \<Rightarrow> outcome \<times> fstate" where
  "run_loop r d =
     fetch_all_basic_resumable (run_fuel r) (run_server r) (run_jql r) (run_page_size r) True
       (run_interrupt r) d"



text \<open>The usable keys of a list of items; and what it means that a run has taken the files
  from \<open>d\<close> to \<open>d'\<close> by appending the items \<open>new\<close>: the log of \<open>d'\<close> is that of \<open>d\<close>
  followed by one line per new item, the new items have usable keys that differ from each
  other and from every key of the log of \<open>d\<close>, and the collection file is untouched.\<close>

definition item_keys :: "item list \<Rightarrow> str set" where
  "item_keys xs = {k. k \<noteq> [] \<and> Some k \<in> key ` set xs}"

definition appended :: "fdisk \<Rightarrow> fdisk \<Rightarrow> item list \<Rightarrow> bool" where
  "appended d d' new =
     (partial d' = partial d @ map Parsed new
      \<and> distinct (map key new)
      \<and> list_all (\<lambda>i. truthy (key i)) new
      \<and> item_keys new \<inter> item_keys (parsed (partial d)) = {}
      \<and> out_json d' = out_json d)"

text \<open>The known keys of the run are the keys of the log.\<close>

definition keys_in_sync :: "fstate \<Rightarrow> bool" where
  "keys_in_sync st = (saved_keys st = item_keys (parsed (partial (disk st))))"


text \<open>
  A remote source for concrete runs. Without a cursor it answers with the issues A and B
  and the cursor \<^verbatim>\<open>t1\<close>, for \<^verbatim>\<open>t1\<close> with the issue C and the cursor \<^verbatim>\<open>t2\<close>, for
  \<^verbatim>\<open>t2\<close> with an empty page; it rejects every other cursor. A second source answers
  with a single page that carries the is-last flag, a third with an empty page. Then a run
  against the first source, and files left by an earlier run whose cursor has expired.
\<close>

definition issue_of :: "string \<Rightarrow> item" where
  "issue_of k = \<lparr>key = Some (lit k), itype = Some (lit ''Bug''), summary = lit ''summary'',
                 description = []\<rparr>"

definition demo_server :: server where
  "demo_server = (\<lambda>n tok.
     if tok = None
     then Page \<lparr>issues = [issue_of ''A'', issue_of ''B''], next_token = Some (lit ''t1''),
                is_last = False\<rparr>
     else if tok = Some (lit ''t1'')
     then Page \<lparr>issues = [issue_of ''C''], next_token = Some (lit ''t2''), is_last = False\<rparr>
     else if tok = Some (lit ''t2'')
     then Page \<lparr>issues = [], next_token = None, is_last = False\<rparr>
     else HTTPError)"

definition single_page_server :: server where
  "single_page_server = (\<lambda>n tok.
     Page \<lparr>issues = [issue_of ''A'', issue_of ''B''], next_token = None, is_last = True\<rparr>)"

definition empty_server :: server where
  "empty_server = (\<lambda>n tok. Page \<lparr>issues = [], next_token = None, is_last = True\<rparr>)"

definition demo_run :: fetch_run where
  "demo_run = \<lparr>run_fuel = 10, run_server = demo_server, run_jql = lit ''project = TON'',
                run_page_size = 2, run_interrupt = None\<rparr>"

definition stale_fdisk :: fdisk where
  "stale_fdisk =
     \<lparr>partial = [Parsed (issue_of ''A'')],
      checkpoint_file = Some \<lparr>cp_jql = lit ''project = TON'', cp_page_size = 2,
                               nextPageToken = Some (lit ''old''), saved_unique = 1,
                               page_index = 1, isLast = False\<rparr>,
      out_json = None\<rparr>"

definition interrupted_run :: fetch_run where
  "interrupted_run = demo_run\<lparr>run_interrupt := Some 1\<rparr>"

definition rejecting_server :: server where
  "rejecting_server = (\<lambda>n tok. HTTPError)"

text \<open>
  The lexical shape in the words of the specification: the span from \<open>i\<close> to \<open>e\<close> of
  the text is a whole-token match when it starts and ends at a word boundary and consists
  of the literal prefix \<^verbatim>\<open>srv\<close> in any case, the separator \<^verbatim>\<open>-\<close>, and a suffix of two
  to ten characters of the class.
\<close>

definition token_match :: "ucd \<Rightarrow> str \<Rightarrow> nat \<Rightarrow> nat \<Rightarrow> bool" where
  "token_match U t i e =
     (at_boundary U t i \<and> i + 4 \<le> e \<and> e \<le> length t
      \<and> lit_s (t ! i) \<and> lit_r (t ! (i + 1)) \<and> lit_v (t ! (i + 2)) \<and> t ! (i + 3) = 45
      \<and> 2 \<le> e - (i + 4) \<and> e - (i + 4) \<le> 10
      \<and> list_all srv_class (slice t (i + 4) e)
      \<and> at_boundary U t e)"

text \<open>Digits and small ASCII letters.\<close>

definition lower_alnum :: "nat \<Rightarrow> bool" where
  "lower_alnum c = ((48 \<le> c \<and> c \<le> 57) \<or> (97 \<le> c \<and> c \<le> 122))"

text \<open>A text for a concrete run of the extractor.\<close>

definition sample_text :: str where
  "sample_text = lit ''see srv-db01, SRV-Cache9.''"







text \<open>The first source for concrete runs as a function of the cursor, and a source with
  three pages of two issues, the last of which is empty.\<close>

definition demo_source :: "str option \<Rightarrow> response" where
  "demo_source tok =
     (if tok = None
      then Page \<lparr>issues = [issue_of ''A'', issue_of ''B''], next_token = Some (lit ''t1''),
                 is_last = False\<rparr>
      else if tok = Some (lit ''t1'')
      then Page \<lparr>issues = [issue_of ''C''], next_token = Some (lit ''t2''), is_last = False\<rparr>
      else if tok = Some (lit ''t2'')
      then Page \<lparr>issues = [], next_token = None, is_last = False\<rparr>
      else HTTPError)"



section \<open>Properties of the string operations\<close>

lemma dropWhile_all: "list_all P a \<Longrightarrow> dropWhile P (a @ m) = dropWhile P m"
  by (induction a) auto

lemma strip_chars_pad:
  "list_all P a \<Longrightarrow> list_all P b \<Longrightarrow> strip_chars P (a @ m @ b) = strip_chars P m"
proof -
  assume a: "list_all P a" and b: "list_all P b"
  have rb: "list_all P (rev b)" using b by (simp add: list_all_iff)
  show ?thesis
  proof (cases "dropWhile P m = []")
    case True
    then have "dropWhile P (m @ b) = []" using b by (auto simp: list_all_iff dropWhile_eq_Nil_conv)
    then show ?thesis using a True by (simp add: strip_chars_def dropWhile_all del: dropWhile_eq_Nil_conv)
  next
    case False
    then have "dropWhile P (m @ b) = dropWhile P m @ b"
      by (auto simp: dropWhile_append dropWhile_eq_Nil_conv)
    then show ?thesis using a rb by (simp add: strip_chars_def dropWhile_all)
  qed
qed

lemma strip_chars_core:
  "m \<noteq> [] \<Longrightarrow> \<not> P (hd m) \<Longrightarrow> \<not> P (last m) \<Longrightarrow> strip_chars P m = m"
proof -
  assume m: "m \<noteq> []" and h: "\<not> P (hd m)" and l: "\<not> P (last m)"
  have 1: "dropWhile P m = m" using m h by (cases m) auto
  have "rev m \<noteq> []" "\<not> P (hd (rev m))" using m l by (simp_all add: hd_rev)
  then have 2: "dropWhile P (rev m) = rev m" by (cases "rev m") auto
  show ?thesis by (simp add: strip_chars_def 1 2)
qed

lemma split_acc_word:
  "list_all (\<lambda>c. \<not> is_space U c) w \<Longrightarrow> split_acc U cur w = (if cur @ w = [] then [] else [cur @ w])"
  by (induction w arbitrary: cur) auto

lemma alnum_not_space: "ascii_alnum c \<Longrightarrow> \<not> is_space U c"
  by (auto simp: ascii_alnum_def is_space_def)
lemma alnum_not_quote: "ascii_alnum c \<Longrightarrow> \<not> quote_chars c"
  by (auto simp: ascii_alnum_def quote_chars_def)
lemma alnum_lower: "ascii_alnum c \<Longrightarrow> ascii_alnum (ascii_lower c)"
  by (auto simp: ascii_alnum_def ascii_lower_def)
lemma alnum_ascii: "ascii_alnum c \<Longrightarrow> c < 128"
  by (auto simp: ascii_alnum_def)

lemma list_all_ends: "xs \<noteq> [] \<Longrightarrow> list_all P xs \<Longrightarrow> P (hd xs) \<and> P (last xs)"
  by (simp add: list_all_iff)

lemma normalize_word:
  assumes w: "w \<noteq> []" "list_all ascii_alnum w"
    and q: "list_all quote_only q1" "list_all quote_only q2"
    and s: "list_all (is_space U) s1" "list_all (is_space U) s2"
  shows "normalize_content U (Some (s1 @ q1 @ w @ q2 @ s2)) = Inr (map ascii_lower w)"
proof -
  let ?m = "q1 @ w @ q2"
  have qs: "\<And>c. quote_only c \<Longrightarrow> \<not> is_space U c \<and> quote_chars c \<and> c < 128 \<and> ascii_lower c = c"
    by (auto simp: quote_only_def is_space_def quote_chars_def ascii_lower_def)
  have m_ne: "?m \<noteq> []" using w by simp
  have hd_m: "\<not> is_space U (hd ?m)"
    using w q qs by (cases q1) (auto simp: list_all_iff hd_append alnum_not_space)
  have last_m: "\<not> is_space U (last ?m)"
    using w q qs by (cases q2 rule: rev_cases) (auto simp: list_all_iff alnum_not_space)
  have strip1: "py_strip U (s1 @ q1 @ w @ q2 @ s2) = ?m"
    using strip_chars_pad [OF s, of ?m] strip_chars_core [OF m_ne hd_m last_m]
    by (simp add: py_strip_def)
  have asc: "is_ascii ?m"
    using w q qs by (auto simp: is_ascii_def list_all_iff alnum_ascii)
  let ?lw = "map ascii_lower w"
  have low: "py_lower U ?m = q1 @ ?lw @ q2"
    using asc q qs by (simp add: py_lower_def list_all_iff map_idI)
  have lw: "?lw \<noteq> []" "list_all ascii_alnum ?lw"
    using w by (auto simp: list_all_iff alnum_lower)
  have q1': "list_all quote_chars q1" and q2': "list_all quote_chars q2"
    using q qs by (auto simp: list_all_iff)
  have "\<not> quote_chars (hd ?lw)" "\<not> quote_chars (last ?lw)"
    using list_all_ends [OF lw] by (auto simp: alnum_not_quote)
  then have strip2: "strip_chars quote_chars (q1 @ ?lw @ q2) = ?lw"
    using strip_chars_pad [OF q1' q2', of ?lw] strip_chars_core [OF lw(1)] by simp
  have "list_all (\<lambda>c. \<not> is_space U c) ?lw"
    using lw by (auto simp: list_all_iff alnum_not_space)
  then have sp: "py_split U ?lw = [?lw]"
    using lw(1) by (simp add: py_split_def split_acc_word)
  show ?thesis
    using w by (simp add: normalize_content_def strip1 low strip2 sp Let_def)
qed

lemma normalize_word_dot:
  assumes w: "w \<noteq> []" "list_all ascii_alnum w"
  shows "normalize_content U (Some (w @ [46])) = Inr (map ascii_lower w @ [46])"
proof -
  let ?m = "w @ [46]"
  have d: "\<not> is_space U 46" "\<not> quote_chars 46" "ascii_lower 46 = 46"
    by (simp_all add: is_space_def quote_chars_def ascii_lower_def)
  have "\<not> is_space U (hd ?m)" "\<not> is_space U (last ?m)"
    using w d by (auto simp: list_all_iff hd_append alnum_not_space)
  then have strip1: "py_strip U ?m = ?m"
    using strip_chars_core [of ?m "is_space U"] by (simp add: py_strip_def)
  have asc: "is_ascii ?m"
    using w by (auto simp: is_ascii_def list_all_iff alnum_ascii)
  let ?lw = "map ascii_lower w @ [46]"
  have low: "py_lower U ?m = ?lw"
    using asc d by (simp add: py_lower_def)
  have al: "list_all ascii_alnum (map ascii_lower w)"
    using w by (auto simp: list_all_iff alnum_lower)
  have "map ascii_lower w \<noteq> []" using w by simp
  from list_all_ends [OF this al]
  have "\<not> quote_chars (hd ?lw)" "\<not> quote_chars (last ?lw)"
    using w d by (auto simp: hd_append alnum_not_quote)
  then have strip2: "strip_chars quote_chars ?lw = ?lw"
    using strip_chars_core [of ?lw quote_chars] by simp
  have "list_all (\<lambda>c. \<not> is_space U c) ?lw"
    using al d by (auto simp: list_all_iff alnum_not_space)
  then have sp: "py_split U ?lw = [?lw]"
    by (simp add: py_split_def split_acc_word)
  show ?thesis
    by (simp add: normalize_content_def strip1 low strip2 sp Let_def)
qed

lemma allowed_no_dot: "l \<in> ALLOWED \<Longrightarrow> 46 \<notin> set l"
  by (auto simp: ALLOWED_def TECH_LABELS_def lit_def ascii_lower_def)

lemma Database_dot: "normalize_content U (Some (lit ''Database.'')) = Inr (lit ''database.'')"
  using normalize_word_dot [of "lit ''Database''" U]
  by (simp add: lit_def ascii_alnum_def ascii_lower_def)

lemma split_acc_cur:
  "cur \<noteq> [] \<Longrightarrow> \<exists>rest. split_acc U cur x = (cur @ takeWhile (\<lambda>c. \<not> is_space U c) x) # rest"
proof (induction x arbitrary: cur)
  case Nil
  then show ?case by simp
next
  case (Cons c cs)
  show ?case
  proof (cases "is_space U c")
    case True
    with Cons.prems show ?thesis by simp
  next
    case False
    from Cons.IH [of "cur @ [c]"] False show ?thesis by simp
  qed
qed

lemma py_split_first:
  "(list_all (is_space U) x \<longrightarrow> py_split U x = [])
   \<and> (\<not> list_all (is_space U) x \<longrightarrow> (\<exists>rest. py_split U x = first_token U x # rest))"
  unfolding py_split_def first_token_def
proof (induction x)
  case Nil
  then show ?case by simp
next
  case (Cons c cs)
  show ?case
  proof (cases "is_space U c")
    case True
    with Cons.IH show ?thesis by simp
  next
    case False
    from split_acc_cur [of "[c]" U cs] obtain rest where
      "split_acc U [c] cs = (c # takeWhile (\<lambda>c. \<not> is_space U c) cs) # rest" by auto
    with False show ?thesis by simp
  qed
qed

lemma normalize_content_first_token:
  "normalize_content U c =
     (let raw = py_lower U (py_strip U (case c of None \<Rightarrow> [] | Some s \<Rightarrow> s));
          x = strip_chars quote_chars raw
      in if raw = [] then Inr []
         else if list_all (is_space U) x then Inl IndexError
         else Inr (first_token U x))"
proof -
  let ?x = "strip_chars quote_chars (py_lower U (py_strip U (case c of None \<Rightarrow> [] | Some s \<Rightarrow> s)))"
  show ?thesis
  proof (cases "list_all (is_space U) ?x")
    case True
    then have "py_split U ?x = []" using py_split_first [of U ?x] by simp
    with True show ?thesis by (simp add: normalize_content_def Let_def)
  next
    case False
    then obtain r where "py_split U ?x = first_token U ?x # r"
      using py_split_first [of U ?x] by auto
    with False show ?thesis by (simp add: normalize_content_def Let_def)
  qed
qed

lemma two_tokens_example:
  "normalize_content U (Some (lit ''Database networking'')) = Inr (lit ''database'')"
  by (simp add: normalize_content_def lit_def py_lower_def py_strip_def strip_chars_def
        is_space_def is_ascii_def ascii_lower_def py_split_def quote_chars_def)

lemma two_quotes_raise: "normalize_content U (Some [34, 34]) = Inl IndexError"
  by (simp add: normalize_content_def py_lower_def py_strip_def strip_chars_def
        is_space_def is_ascii_def ascii_lower_def py_split_def quote_chars_def)

section \<open>Properties of the classifier gateway\<close>

text \<open>
  Claim C3, as the code has it. The response normalization removes surrounding white space,
  lower-cases the text, removes surrounding backticks, double quotes, single quotes and
  spaces, and keeps the first token delimited by white space: for every response the
  result is the first token of the text so trimmed (an empty token for an empty response,
  and \<^verbatim>\<open>IndexError\<close> when nothing but white space is left after the quotes are removed),
  so \<^verbatim>\<open>Database networking\<close> gives \<^verbatim>\<open>database\<close>. A word of ASCII letters and digits
  inside quotes and white space comes out lower-cased and bare. No other punctuation is
  removed: the same word followed by a full stop keeps the full stop. For the response
  \<^verbatim>\<open>Database.\<close> the token is \<^verbatim>\<open>database.\<close>, which is not an allowed label, so
  \<^verbatim>\<open>classify_technology\<close> calls the client a second time, and returns the fallback label
  when the second response is \<^verbatim>\<open>Database.\<close> again.
\<close>

theorem normalize_keeps_punctuation:
  assumes "w \<noteq> []" and "list_all ascii_alnum w"
    and "list_all quote_only q1" and "list_all quote_only q2"
    and "list_all (is_space U) s1" and "list_all (is_space U) s2"
  shows "normalize_content U (Some (s1 @ q1 @ w @ q2 @ s2)) = Inr (map ascii_lower w)
       \<and> normalize_content U (Some (w @ lit ''.'')) = Inr (map ascii_lower w @ lit ''.'')
       \<and> normalize_content U (Some (lit ''Database.'')) = Inr (lit ''database.'')
       \<and> lit ''database.'' \<notin> ALLOWED
       \<and> (text \<noteq> [] \<and> py_strip U text \<noteq> [] \<and> svc n text = Content (Some (lit ''Database.''))
            \<longrightarrow> snd (classify_technology U svc n text) = n + 2
              \<and> (svc (Suc n) text = Content (Some (lit ''Database.''))
                   \<longrightarrow> classify_technology U svc n text = (UNCLASSIFIED_LABEL, n + 2)))
       \<and> normalize_content U c =
            (let raw = py_lower U (py_strip U (case c of None \<Rightarrow> [] | Some s \<Rightarrow> s));
                 x = strip_chars quote_chars raw
             in if raw = [] then Inr []
                else if list_all (is_space U) x then Inl IndexError
                else Inr (first_token U x))
       \<and> normalize_content U (Some (lit ''Database networking'')) = Inr (lit ''database'')"
proof -
  have a: "normalize_content U (Some (s1 @ q1 @ w @ q2 @ s2)) = Inr (map ascii_lower w)"
    using assms by (rule normalize_word)
  have b: "normalize_content U (Some (w @ lit ''.'')) = Inr (map ascii_lower w @ lit ''.'')"
    using normalize_word_dot [OF assms(1,2)] by (simp add: lit_def)
  have c: "lit ''database.'' \<notin> ALLOWED"
    using allowed_no_dot [of "lit ''database.''"] by (auto simp: lit_def)
  have d: "snd (classify_technology U svc n text) = n + 2
              \<and> (svc (Suc n) text = Content (Some (lit ''Database.''))
                   \<longrightarrow> classify_technology U svc n text = (UNCLASSIFIED_LABEL, n + 2))"
    if "text \<noteq> []" "py_strip U text \<noteq> []" "svc n text = Content (Some (lit ''Database.''))"
    using that c
    by (auto simp: classify_technology_def ask_once_def Database_dot
             split: reply.splits sum.splits prod.splits)
  show ?thesis
    using a b c d Database_dot normalize_content_first_token [of U c] two_tokens_example [of U]
    by blast
qed


text \<open>Claim C3, the theorem at the responses \<^verbatim>\<open> "Storage" \<close>, \<^verbatim>\<open>Storage.\<close> and
  \<^verbatim>\<open>Storage, maybe api\<close>, and at a service that always answers \<^verbatim>\<open>Database.\<close>.\<close>

theorem normalize_keeps_punctuation_witness:
  "normalize_content ascii_ucd (Some (lit '' \"Storage\" '')) = Inr (lit ''storage'')
   \<and> normalize_content ascii_ucd (Some (lit ''Storage.'')) = Inr (lit ''storage.'')
   \<and> classify_technology ascii_ucd (always_says (lit ''Database.'')) 3 (lit ''disk full'')
       = (UNCLASSIFIED_LABEL, 5)
   \<and> normalize_content ascii_ucd (Some (lit ''Storage, maybe api'')) = Inr (lit ''storage,'')
   \<and> first_token ascii_ucd (lit ''storage, maybe api'') = lit ''storage,''"
proof -
  have h: "lit ''Storage'' \<noteq> []" "list_all ascii_alnum (lit ''Storage'')"
    "list_all quote_only (lit ''\"'')" "list_all quote_only (lit ''\"'')"
    "list_all (is_space ascii_ucd) (lit '' '')" "list_all (is_space ascii_ucd) (lit '' '')"
    by (simp_all add: lit_def ascii_alnum_def quote_only_def is_space_def)
  have t: "lit ''disk full'' \<noteq> []" "py_strip ascii_ucd (lit ''disk full'') \<noteq> []"
    "always_says (lit ''Database.'') 3 (lit ''disk full'') = Content (Some (lit ''Database.''))"
    "always_says (lit ''Database.'') (Suc 3) (lit ''disk full'') = Content (Some (lit ''Database.''))"
    by (simp_all add: lit_def py_strip_def strip_chars_def is_space_def always_says_def)
  have r: "py_lower ascii_ucd (py_strip ascii_ucd (lit ''Storage, maybe api'')) = lit ''storage, maybe api''"
    "strip_chars quote_chars (lit ''storage, maybe api'') = lit ''storage, maybe api''"
    "\<not> list_all (is_space ascii_ucd) (lit ''storage, maybe api'')"
    "lit ''storage, maybe api'' \<noteq> []"
    "first_token ascii_ucd (lit ''storage, maybe api'') = lit ''storage,''"
    by code_simp+
  from normalize_keeps_punctuation [OF h, of "lit ''disk full''" "always_says (lit ''Database.'')" 3
         "Some (lit ''Storage, maybe api'')"]
  show ?thesis using t r by (simp add: lit_def ascii_lower_def)
qed


text \<open>Claim C3 as stated fails: the response \<^verbatim>\<open>Database.\<close> is normalized to
  \<^verbatim>\<open>database.\<close>, not to \<^verbatim>\<open>database\<close>, and a service that always answers
  \<^verbatim>\<open>Database.\<close> is called twice and classified with the fallback label.\<close>

theorem normalize_Database_dot_counterexample:
  "normalize_content ascii_ucd (Some (lit ''Database.'')) = Inr (lit ''database.'')
   \<and> lit ''database.'' \<noteq> lit ''database''
   \<and> classify_technology ascii_ucd (always_says (lit ''Database.'')) 0 (lit ''db down'')
       = (UNCLASSIFIED_LABEL, 2)"
  by code_simp

text \<open>
  Claim C5, as the code has it. For a text that is not blank: when the first call of the
  client raises, \<^verbatim>\<open>classify_technology\<close> returns the fallback label after that one call,
  without a second call; the same holds when the first response cannot be normalized
  (\<^verbatim>\<open>IndexError\<close>). It calls the client a second time, with the same text, exactly when
  the first response is normalized to a token outside the allowed set; then an allowed
  token of the second response is returned, and the fallback label when the second call
  raises, or its response cannot be normalized, or its token is not allowed. An allowed
  token of the first response is returned after one call. At most two calls are made.
\<close>

theorem classify_error_no_retry:
  assumes "text \<noteq> []" and "py_strip U text \<noteq> []"
  shows "(svc n text = Raises \<longrightarrow> classify_technology U svc n text = (UNCLASSIFIED_LABEL, Suc n))
       \<and> (svc n text = Content c \<and> normalize_content U c = Inr l \<and> l \<notin> ALLOWED \<longrightarrow>
            classify_technology U svc n text =
              (case ask_once U svc (Suc n) text of
                 (Inl e, k) \<Rightarrow> (UNCLASSIFIED_LABEL, n + 2)
               | (Inr l2, k) \<Rightarrow> (if l2 \<in> ALLOWED then l2 else UNCLASSIFIED_LABEL, n + 2)))
       \<and> (svc n text = Content c \<and> normalize_content U c = Inr l \<and> l \<in> ALLOWED \<longrightarrow>
            classify_technology U svc n text = (l, Suc n))
       \<and> snd (classify_technology U svc n text) \<le> n + 2
       \<and> (svc n text = Content c \<and> normalize_content U c = Inl e \<longrightarrow>
            classify_technology U svc n text = (UNCLASSIFIED_LABEL, Suc n))
       \<and> (svc n text = Content c \<and> normalize_content U c = Inr l \<and> l \<notin> ALLOWED
            \<and> svc (Suc n) text = Raises \<longrightarrow>
            classify_technology U svc n text = (UNCLASSIFIED_LABEL, n + 2))
       \<and> (svc n text = Content c \<and> normalize_content U c = Inr l \<and> l \<notin> ALLOWED
            \<and> svc (Suc n) text = Content c2 \<longrightarrow>
            classify_technology U svc n text =
              (case normalize_content U c2 of
                 Inl e2 \<Rightarrow> UNCLASSIFIED_LABEL
               | Inr l2 \<Rightarrow> if l2 \<in> ALLOWED then l2 else UNCLASSIFIED_LABEL, n + 2))
       \<and> (snd (classify_technology U svc n text) = n + 2 \<longleftrightarrow>
            (\<exists>c1 l1. svc n text = Content c1 \<and> normalize_content U c1 = Inr l1 \<and> l1 \<notin> ALLOWED))"
  using assms
  by (auto simp: classify_technology_def ask_once_def split: reply.splits sum.splits prod.splits)


text \<open>Claim C5, the theorem at a service whose first call fails, at one that always
  answers \<^verbatim>\<open>banana\<close>, and at one whose first answer is two double quotes.\<close>

theorem classify_error_no_retry_witness:
  "classify_technology ascii_ucd flaky_service 0 (lit ''db down'') = (UNCLASSIFIED_LABEL, Suc 0)
   \<and> classify_technology ascii_ucd (always_says (lit ''banana'')) 0 (lit ''db down'')
       = (UNCLASSIFIED_LABEL, 2)
   \<and> normalize_content ascii_ucd (Some [34, 34]) = Inl IndexError
   \<and> quoting_service 1 (lit ''db down'') = Content (Some (lit ''database''))
   \<and> classify_technology ascii_ucd quoting_service 0 (lit ''db down'') = (UNCLASSIFIED_LABEL, Suc 0)"
proof -
  have t: "lit ''db down'' \<noteq> []" "py_strip ascii_ucd (lit ''db down'') \<noteq> []"
    by (simp_all add: lit_def py_strip_def strip_chars_def is_space_def)
  have f: "flaky_service 0 (lit ''db down'') = Raises" by (simp add: flaky_service_def)
  have b: "always_says (lit ''banana'') 0 (lit ''db down'') = Content (Some (lit ''banana''))"
    "normalize_content ascii_ucd (Some (lit ''banana'')) = Inr (lit ''banana'')"
    "lit ''banana'' \<notin> ALLOWED"
    by (simp add: always_says_def, code_simp, code_simp)
  have a2: "ask_once ascii_ucd (always_says (lit ''banana'')) (Suc 0) (lit ''db down'')
             = (Inr (lit ''banana''), 2)"
    using b by (simp add: ask_once_def always_says_def)
  have q: "quoting_service 0 (lit ''db down'') = Content (Some [34, 34])"
    "quoting_service 1 (lit ''db down'') = Content (Some (lit ''database''))"
    "normalize_content ascii_ucd (Some [34, 34]) = Inl IndexError"
    by (simp_all add: quoting_service_def two_quotes_raise)
  from classify_error_no_retry [OF t, of flaky_service 0 "Some (lit ''banana'')" "lit ''banana''"]
       classify_error_no_retry [OF t, of "always_says (lit ''banana'')" 0 "Some (lit ''banana'')" "lit ''banana''"]
       classify_error_no_retry [OF t, of quoting_service 0 "Some [34, 34]" _ IndexError]
  show ?thesis using f b a2 q by simp
qed


text \<open>Claim C5 as stated fails: the first call fails, a second call would be answered
  \<^verbatim>\<open>database\<close>, and the result is the fallback label after one call.\<close>

theorem classify_retry_on_error_counterexample:
  "flaky_service 0 (lit ''db down'') = Raises
   \<and> flaky_service 1 (lit ''db down'') = Content (Some (lit ''database''))
   \<and> classify_technology ascii_ucd flaky_service 0 (lit ''db down'') = (UNCLASSIFIED_LABEL, 1)"
  by code_simp

section \<open>Properties of the enrichment pipeline and the aggregator\<close>

lemma aggregate_logs:
  "TECH_PER_ISSUE (aggregate_outputs is d) = TECH_PER_ISSUE d"
  "SERVERS_PER_ISSUE (aggregate_outputs is d) = SERVERS_PER_ISSUE d"
  by (simp_all add: aggregate_outputs_def Let_def)

lemma aggregate_keys:
  "tech_keys (aggregate_outputs is d) = tech_keys d"
  "server_keys (aggregate_outputs is d) = server_keys d"
  by (simp_all add: tech_keys_def server_keys_def aggregate_logs)

lemma parsed_append: "parsed (xs @ ys) = parsed xs @ parsed ys"
  by (induction xs rule: parsed.induct) auto

lemma log_servers_keys:
  "server_keys (log_servers U i d) = insert (key i) (server_keys d)"
  "tech_keys (log_servers U i d) = tech_keys d"
  by (simp_all add: server_keys_def tech_keys_def log_servers_def append_jsonl_def parsed_append)

lemma log_label_keys:
  "server_keys (log_label i l d) = server_keys d"
  "tech_keys (log_label i l d) = insert (key i) (tech_keys d)"
  by (simp_all add: server_keys_def tech_keys_def log_label_def append_jsonl_def parsed_append)

lemma process_issues_server_keys:
  "server_keys (fst (process_issues U svc pc is d n b)) \<subseteq> server_keys d \<union> key ` set is"
proof (induction "is" arbitrary: d n b)
  case Nil
  then show ?case by simp
next
  case (Cons i "is")
  let ?cl = "classify_technology U svc n (issue_text U i)"
  from Cons.IH [of d n b]
       Cons.IH [of "log_label i (fst ?cl) (log_servers U i d)" "snd ?cl" "tick (tick b)"]
  show ?case
    by (auto simp: Let_def log_servers_keys log_label_keys)
qed

lemma process_issues_invariant:
  "tech_keys d \<subseteq> server_keys d \<Longrightarrow>
   tech_keys (fst (process_issues U svc pc is d n b))
     \<subseteq> server_keys (fst (process_issues U svc pc is d n b))"
proof (induction "is" arbitrary: d n b)
  case Nil
  then show ?case by simp
next
  case (Cons i "is")
  let ?cl = "classify_technology U svc n (issue_text U i)"
  let ?d2 = "log_label i (fst ?cl) (log_servers U i d)"
  have "tech_keys ?d2 \<subseteq> server_keys ?d2"
    using Cons.prems by (auto simp: log_servers_keys log_label_keys)
  from Cons.IH [OF Cons.prems, of n b] Cons.IH [OF this, of "snd ?cl" "tick (tick b)"] Cons.prems
  show ?case
    by (auto simp: Let_def log_servers_keys)
qed

lemma main_invariant:
  "tech_keys d \<subseteq> server_keys d \<Longrightarrow>
   tech_keys (main U L svc b issues_all d) \<subseteq> server_keys (main U L svc b issues_all d)"
  by (simp add: main_def Let_def aggregate_keys process_issues_invariant)

lemma main_runs_invariant:
  "tech_keys d \<subseteq> server_keys d \<Longrightarrow>
   tech_keys (main_runs U rs d) \<subseteq> server_keys (main_runs U rs d)"
  unfolding main_runs_def
  by (induction rs arbitrary: d) (simp_all add: main_invariant)

lemma key_step_fold:
  "fold (key_step kf) ls A = A \<union> {k. k \<noteq> [] \<and> Some k \<in> set (map kf (parsed ls))}"
proof (induction ls arbitrary: A)
  case Nil
  then show ?case by simp
next
  case (Cons l ls)
  have "fold (key_step kf) (l # ls) A
          = key_step kf l A \<union> {k. k \<noteq> [] \<and> Some k \<in> set (map kf (parsed ls))}"
    by (simp add: Cons.IH)
  also have "\<dots> = A \<union> {k. k \<noteq> [] \<and> Some k \<in> set (map kf (parsed (l # ls)))}"
    by (cases l) (auto simp: key_step_def split: option.splits)
  finally show ?case .
qed

lemma load_processed_keys_eq:
  "load_processed_keys_from_jsonl kf ls = {k. k \<noteq> [] \<and> Some k \<in> set (map kf (parsed ls))}"
  by (simp add: load_processed_keys_from_jsonl_def key_step_fold)

lemma server_step_fold_keys:
  "snd (fold server_step ls st) \<subseteq> snd st \<union> set (map s_key (parsed ls))"
proof (induction ls arbitrary: st)
  case Nil
  then show ?case by simp
next
  case (Cons l ls)
  have "snd (server_step l st) \<subseteq> snd st \<union> set (map s_key (parsed [l]))"
    by (cases l) (auto simp: server_step_def)
  with Cons.IH [of "server_step l st"] show ?case
    by (cases l) auto
qed

lemma keys_with_servers_subset:
  "snd (fold server_step (SERVERS_PER_ISSUE d) ([], {})) \<subseteq> server_keys d"
  using server_step_fold_keys [of "SERVERS_PER_ISSUE d" "([], {})"]
  by (simp add: server_keys_def)

lemma unresolved_main:
  "UNRESOLVED_JSON (aggregate_outputs issues_all d) =
     Some (map (\<lambda>i. (key i, summary i))
            (filter (\<lambda>i. key i \<notin> snd (fold server_step (SERVERS_PER_ISSUE d) ([], {}))) issues_all))"
  by (simp add: aggregate_outputs_def Let_def)

text \<open>
  Claim C10. A run with a processing cap \<open>C\<close>, \<open>0 < C < M\<close>, on a collection of \<open>M\<close>
  items, however the loop is left: an item beyond the cap whose key has no extraction
  record before the run, and is not the key of one of the first \<open>C\<close> items, has no
  extraction record after the run either, and the unresolved report, which the aggregator
  computes from the whole collection, lists it with its summary.
\<close>

theorem capped_run_lists_unprocessed:
  assumes cap: "0 < C" "nat C < length issues_all"
    and j: "nat C \<le> j" "j < length issues_all"
    and fresh: "key (issues_all ! j) \<notin> server_keys d"
    and other: "key (issues_all ! j) \<notin> key ` set (take (nat C) issues_all)"
  shows "key (issues_all ! j) \<notin> server_keys (main U C svc b issues_all d)
       \<and> (\<exists>u. UNRESOLVED_JSON (main U C svc b issues_all d) = Some u
              \<and> (key (issues_all ! j), summary (issues_all ! j)) \<in> set u)"
proof -
  let ?pc = "load_processed_keys_from_jsonl t_key (TECH_PER_ISSUE d)
               \<inter> load_processed_keys_from_jsonl s_key (SERVERS_PER_ISSUE d)"
  let ?d' = "fst (process_issues U svc ?pc (take (nat C) issues_all) d 0 b)"
  have m: "main U C svc b issues_all d = aggregate_outputs issues_all ?d'"
    using cap by (simp add: main_def select_issues_def Let_def)
  have nk: "key (issues_all ! j) \<notin> server_keys ?d'"
    using process_issues_server_keys [of U svc ?pc "take (nat C) issues_all" d 0 b] fresh other
    by blast
  then have "key (issues_all ! j) \<notin> snd (fold server_step (SERVERS_PER_ISSUE ?d') ([], {}))"
    using keys_with_servers_subset [of ?d'] by blast
  moreover have "issues_all ! j \<in> set issues_all" using j by simp
  ultimately have "(key (issues_all ! j), summary (issues_all ! j))
      \<in> set (map (\<lambda>i. (key i, summary i))
            (filter (\<lambda>i. key i \<notin> snd (fold server_step (SERVERS_PER_ISSUE ?d') ([], {}))) issues_all))"
    by auto
  then show ?thesis
    using nk by (simp add: m unresolved_main aggregate_keys)
qed

text \<open>
  Claim C8. Running the aggregator on its own result changes nothing; the aggregator leaves
  the two logs as they are; and the three artifacts it writes depend on the two logs and
  the collection only: whatever the artifacts held before (\<open>d'\<close> is any directory with the
  same logs), they are replaced by the same values.
\<close>

theorem aggregate_outputs_idempotent:
  "aggregate_outputs issues_all (aggregate_outputs issues_all d) = aggregate_outputs issues_all d
   \<and> TECH_PER_ISSUE (aggregate_outputs issues_all d) = TECH_PER_ISSUE d
   \<and> SERVERS_PER_ISSUE (aggregate_outputs issues_all d) = SERVERS_PER_ISSUE d
   \<and> (TECH_PER_ISSUE d' = TECH_PER_ISSUE d \<and> SERVERS_PER_ISSUE d' = SERVERS_PER_ISSUE d \<longrightarrow>
        TECH_COUNTS (aggregate_outputs issues_all d') = TECH_COUNTS (aggregate_outputs issues_all d)
      \<and> SERVER_COUNTS (aggregate_outputs issues_all d') = SERVER_COUNTS (aggregate_outputs issues_all d)
      \<and> UNRESOLVED_JSON (aggregate_outputs issues_all d') = UNRESOLVED_JSON (aggregate_outputs issues_all d))"
  by (simp add: aggregate_outputs_def Let_def)

text \<open>
  Claim C9. After any sequence of runs that starts with empty logs, each run with its own
  collection, cap and service and left at any append or not at all, every key of the
  classification log is a key of the extraction log; the same holds for the sets of
  processed keys that \<^verbatim>\<open>load_processed_keys_from_jsonl\<close> reads from the two logs.
\<close>

theorem classification_keys_subset_extraction_keys:
  "tech_keys (main_runs U rs empty_adisk) \<subseteq> server_keys (main_runs U rs empty_adisk)
   \<and> load_processed_keys_from_jsonl t_key (TECH_PER_ISSUE (main_runs U rs empty_adisk))
       \<subseteq> load_processed_keys_from_jsonl s_key (SERVERS_PER_ISSUE (main_runs U rs empty_adisk))"
proof -
  have e: "tech_keys empty_adisk \<subseteq> server_keys empty_adisk"
    by (simp add: tech_keys_def empty_adisk_def)
  from main_runs_invariant [OF e, of U rs]
  show ?thesis
    by (auto simp: load_processed_keys_eq tech_keys_def server_keys_def)
qed

text \<open>Claim C10, the theorem at a collection of two tickets and the cap 1: the second
  ticket is in the unresolved report.\<close>

theorem capped_run_lists_unprocessed_witness:
  "key ticket_B \<notin> server_keys (main ascii_ucd 1 (always_says (lit ''database'')) None
                                   [ticket_A, ticket_B] empty_adisk)
   \<and> (\<exists>u. UNRESOLVED_JSON (main ascii_ucd 1 (always_says (lit ''database'')) None
                              [ticket_A, ticket_B] empty_adisk) = Some u
          \<and> (key ticket_B, summary ticket_B) \<in> set u)"
proof -
  have h: "(0::int) < 1" "nat 1 < length [ticket_A, ticket_B]" "nat 1 \<le> (1::nat)"
    "(1::nat) < length [ticket_A, ticket_B]"
    "key ([ticket_A, ticket_B] ! 1) \<notin> server_keys empty_adisk"
    "key ([ticket_A, ticket_B] ! 1) \<notin> key ` set (take (nat 1) [ticket_A, ticket_B])"
    by (simp_all add: server_keys_def empty_adisk_def ticket_A_def ticket_B_def lit_def)
  from capped_run_lists_unprocessed [OF h, of ascii_ucd "always_says (lit ''database'')" None]
  show ?thesis by simp
qed

text \<open>Claim C8, the theorem at a directory with one extraction record and stale
  artifacts: the stale server counts are replaced.\<close>

theorem aggregate_outputs_idempotent_witness:
  "aggregate_outputs [ticket_A, ticket_B] (aggregate_outputs [ticket_A, ticket_B] stale_adisk)
     = aggregate_outputs [ticket_A, ticket_B] stale_adisk
   \<and> SERVER_COUNTS (aggregate_outputs [ticket_A, ticket_B] stale_adisk)
     = SERVER_COUNTS (aggregate_outputs [ticket_A, ticket_B] (log_servers ascii_ucd ticket_A empty_adisk))
   \<and> SERVER_COUNTS (aggregate_outputs [ticket_A, ticket_B] stale_adisk) = Some [(lit ''srv-ab1'', 1)]"
proof -
  have l: "TECH_PER_ISSUE stale_adisk = TECH_PER_ISSUE (log_servers ascii_ucd ticket_A empty_adisk)"
    "SERVERS_PER_ISSUE stale_adisk = SERVERS_PER_ISSUE (log_servers ascii_ucd ticket_A empty_adisk)"
    by (simp_all add: stale_adisk_def)
  have v: "SERVER_COUNTS (aggregate_outputs [ticket_A, ticket_B] stale_adisk) = Some [(lit ''srv-ab1'', 1)]"
    by code_simp
  from aggregate_outputs_idempotent [of "[ticket_A, ticket_B]" stale_adisk stale_adisk]
       aggregate_outputs_idempotent [of "[ticket_A, ticket_B]" "log_servers ascii_ucd ticket_A empty_adisk" stale_adisk]
  show ?thesis using l v by simp
qed

text \<open>Claim C9, the theorem at a run that is left after its first append: the key of the
  first ticket is in the extraction log only; the run after it completes both logs.\<close>

theorem classification_keys_subset_extraction_keys_witness:
  "tech_keys (main_runs ascii_ucd [stopped_run] empty_adisk)
     \<subseteq> server_keys (main_runs ascii_ucd [stopped_run] empty_adisk)
   \<and> tech_keys (main_runs ascii_ucd [stopped_run] empty_adisk) = {}
   \<and> server_keys (main_runs ascii_ucd [stopped_run] empty_adisk) = {Some (lit ''TON-1'')}
   \<and> tech_keys (main_runs ascii_ucd [stopped_run, full_run] empty_adisk)
       = {Some (lit ''TON-1''), Some (lit ''TON-2'')}"
proof -
  have a: "tech_keys (main_runs ascii_ucd [stopped_run] empty_adisk) = {}"
    by code_simp
  have b: "server_keys (main_runs ascii_ucd [stopped_run] empty_adisk) = {Some (lit ''TON-1'')}"
    by code_simp
  have c: "tech_keys (main_runs ascii_ucd [stopped_run, full_run] empty_adisk)
       = {Some (lit ''TON-1''), Some (lit ''TON-2'')}"
    by code_simp
  from classification_keys_subset_extraction_keys [of ascii_ucd "[stopped_run]"]
  show ?thesis using a b c by simp
qed

text \<open>
  Claim C2 against the code. One complete run over two tickets, the first of which mentions
  \<^verbatim>\<open>srv-ab1\<close> once, counts that server once. When a run is left between the two appends
  for the first ticket and the next run completes, the ticket is processed again, the
  extraction log holds its record twice, and the server is counted twice. In the same way
  a classification log that holds the record of a key twice counts its label twice.
\<close>

theorem duplicate_extraction_record_counted_twice:
  "SERVER_COUNTS (main_runs ascii_ucd [full_run] empty_adisk) = Some [(lit ''srv-ab1'', 1)]
   \<and> parsed (SERVERS_PER_ISSUE (main_runs ascii_ucd [stopped_run, full_run] empty_adisk))
       = [\<lparr>s_key = Some (lit ''TON-1''), servers = [lit ''srv-ab1'']\<rparr>,
          \<lparr>s_key = Some (lit ''TON-1''), servers = [lit ''srv-ab1'']\<rparr>,
          \<lparr>s_key = Some (lit ''TON-2''), servers = []\<rparr>]
   \<and> SERVER_COUNTS (main_runs ascii_ucd [stopped_run, full_run] empty_adisk)
       = Some [(lit ''srv-ab1'', 2)]
   \<and> TECH_COUNTS (aggregate_outputs [ticket_A]
        (log_label ticket_A (lit ''database'') empty_adisk)) = Some [(lit ''database'', 1)]
   \<and> TECH_COUNTS (aggregate_outputs [ticket_A]
        (log_label ticket_A (lit ''database'') (log_label ticket_A (lit ''database'') empty_adisk)))
       = Some [(lit ''database'', 2)]"
  by code_simp


section \<open>Properties of the fetch pipeline\<close>

lemma parsed_map_Parsed: "parsed (map Parsed xs) = xs"
  by (induction xs) auto

lemma item_keys_simps:
  "item_keys [] = {}"
  "item_keys (x # xs) = (if truthy (key x) then insert (the (key x)) (item_keys xs) else item_keys xs)"
  "item_keys (xs @ ys) = item_keys xs \<union> item_keys ys"
  by (auto simp: item_keys_def truthy_def split: option.splits)

lemma item_keys_mono: "set xs \<subseteq> set ys \<Longrightarrow> item_keys xs \<subseteq> item_keys ys"
  by (auto simp: item_keys_def)

lemma saved_step_fold:
  "fst (fold saved_step ls acc) = fst acc \<union> item_keys (parsed ls)"
proof (induction ls arbitrary: acc)
  case Nil
  then show ?case by (simp add: item_keys_simps)
next
  case (Cons l ls)
  have "fst (fold saved_step (l # ls) acc) = fst (saved_step l acc) \<union> item_keys (parsed ls)"
    by (simp add: Cons.IH)
  also have "\<dots> = fst acc \<union> item_keys (parsed (l # ls))"
    by (cases l) (auto simp: saved_step_def item_keys_simps truthy_def split: option.splits)
  finally show ?case .
qed

lemma load_saved_keys_eq: "fst (load_saved_keys ls) = item_keys (parsed ls)"
  by (simp add: load_saved_keys_def saved_step_fold)

lemma save_issues_frame:
  "save_issues objs st = (st', intr) \<Longrightarrow>
     checkpoint_file (disk st') = checkpoint_file (disk st) \<and> out_json (disk st') = out_json (disk st)
     \<and> token st' = token st \<and> requests st' = requests st \<and> received st' = received st
     \<and> st_page_index st' = st_page_index st"
proof (induction objs arbitrary: st)
  case Nil
  then show ?case by simp
next
  case (Cons obj rest)
  show ?case
  proof (cases "truthy (key obj) \<and> the (key obj) \<notin> saved_keys st \<and> budget st \<noteq> Some 0")
    case True
    let ?st1 = "st\<lparr>disk := (disk st)\<lparr>partial := append_issue (partial (disk st)) obj\<rparr>,
                     saved_keys := insert (the (key obj)) (saved_keys st),
                     budget := tick (budget st)\<rparr>"
    from True Cons.prems have "save_issues rest ?st1 = (st', intr)"
      by (auto simp: truthy_def split: option.splits)
    from Cons.IH [OF this] show ?thesis by simp
  next
    case False
    then have "save_issues (obj # rest) st = save_issues rest st \<or> (st' = st \<and> intr)"
      using Cons.prems by (auto simp: truthy_def split: option.splits if_splits)
    then show ?thesis using Cons.IH [of st] Cons.prems by auto
  qed
qed

lemma save_issues_effect:
  "save_issues objs st = (st', intr) \<Longrightarrow>
     \<exists>new. partial (disk st') = partial (disk st) @ map Parsed new
       \<and> distinct (map key new) \<and> list_all (\<lambda>i. truthy (key i)) new
       \<and> item_keys new \<inter> saved_keys st = {}
       \<and> saved_keys st' = saved_keys st \<union> item_keys new
       \<and> (\<not> intr \<longrightarrow> item_keys objs \<subseteq> saved_keys st')"
proof (induction objs arbitrary: st)
  case Nil
  then show ?case by (auto simp: item_keys_simps intro: exI [of _ "[]"])
next
  case (Cons obj rest)
  show ?case
  proof (cases "truthy (key obj) \<and> the (key obj) \<notin> saved_keys st")
    case False
    then have eq: "save_issues (obj # rest) st = save_issues rest st"
      by (auto simp: truthy_def split: option.splits)
    from Cons.IH [of st] Cons.prems eq obtain new where
      n: "partial (disk st') = partial (disk st) @ map Parsed new"
         "distinct (map key new)" "list_all (\<lambda>i. truthy (key i)) new"
         "item_keys new \<inter> saved_keys st = {}"
         "saved_keys st' = saved_keys st \<union> item_keys new"
         "\<not> intr \<longrightarrow> item_keys rest \<subseteq> saved_keys st'"
      by auto
    have "\<not> intr \<longrightarrow> item_keys (obj # rest) \<subseteq> saved_keys st'"
      using n(5,6) False by (auto simp: item_keys_simps)
    with n show ?thesis by blast
  next
    case True
    then obtain k where k: "key obj = Some k" "k \<noteq> []" "k \<notin> saved_keys st"
      by (auto simp: truthy_def split: option.splits)
    show ?thesis
    proof (cases "budget st = Some 0")
      case True
      with k Cons.prems have "st' = st" "intr" by auto
      then show ?thesis by (auto simp: item_keys_simps intro: exI [of _ "[]"])
    next
      case False
      let ?st1 = "st\<lparr>disk := (disk st)\<lparr>partial := append_issue (partial (disk st)) obj\<rparr>,
                     saved_keys := insert k (saved_keys st),
                     budget := tick (budget st)\<rparr>"
      from False k Cons.prems have "save_issues rest ?st1 = (st', intr)" by auto
      from Cons.IH [OF this] obtain new where
        n: "partial (disk st') = partial (disk ?st1) @ map Parsed new"
           "distinct (map key new)" "list_all (\<lambda>i. truthy (key i)) new"
           "item_keys new \<inter> saved_keys ?st1 = {}"
           "saved_keys st' = saved_keys ?st1 \<union> item_keys new"
           "\<not> intr \<longrightarrow> item_keys rest \<subseteq> saved_keys st'"
        by auto
      have knew: "Some k \<notin> key ` set new"
        using n(4) k by (auto simp: item_keys_def)
      have 1: "partial (disk st') = partial (disk st) @ map Parsed (obj # new)"
        using n(1) by (simp add: append_issue_def)
      have 2: "distinct (map key (obj # new))"
        using n(2) knew k by simp
      have 3: "list_all (\<lambda>i. truthy (key i)) (obj # new)"
        using n(3) k by (simp add: truthy_def)
      have 4: "item_keys (obj # new) \<inter> saved_keys st = {}"
        using n(4) k by (auto simp: item_keys_simps truthy_def)
      have 5: "saved_keys st' = saved_keys st \<union> item_keys (obj # new)"
        using n(5) k by (auto simp: item_keys_simps truthy_def)
      have 6: "\<not> intr \<longrightarrow> item_keys (obj # rest) \<subseteq> saved_keys st'"
        using n(5,6) k by (auto simp: item_keys_simps truthy_def)
      from 1 2 3 4 5 6 show ?thesis by blast
    qed
  qed
qed


lemma fetch_loop_Suc_cases [consumes 1, case_names interrupted retry fatal empty intr_items intr_cp last more]:
  assumes "fetch_loop (Suc fuel) srv jql ps st = (oc, st')"
  obtains "budget st = Some 0" "oc = Interrupted" "st' = st"
  | "budget st \<noteq> Some 0" "srv (requests st) (sent_token (token st)) = HTTPError" "token st \<noteq> None"
      "fetch_loop fuel srv jql ps (st\<lparr>token := None, requests := Suc (requests st)\<rparr>) = (oc, st')"
  | "budget st \<noteq> Some 0" "oc = Fatal" "st' = st\<lparr>requests := Suc (requests st)\<rparr>"
  | data where "budget st \<noteq> Some 0" "srv (requests st) (sent_token (token st)) = Page data"
      "issues data = []" "oc = NoMoreIssues" "st' = st\<lparr>requests := Suc (requests st)\<rparr>"
  | data where "budget st \<noteq> Some 0" "srv (requests st) (sent_token (token st)) = Page data"
      "issues data \<noteq> []"
      "save_issues (issues data) (st\<lparr>requests := Suc (requests st), received := received st @ issues data\<rparr>) = (st', True)"
      "oc = Interrupted"
  | data where "budget st \<noteq> Some 0" "srv (requests st) (sent_token (token st)) = Page data"
      "issues data \<noteq> []"
      "save_issues (issues data) (st\<lparr>requests := Suc (requests st), received := received st @ issues data\<rparr>) = (st', False)"
      "budget st' = Some 0" "oc = Interrupted"
  | data st1 where "budget st \<noteq> Some 0" "srv (requests st) (sent_token (token st)) = Page data"
      "issues data \<noteq> []"
      "save_issues (issues data) (st\<lparr>requests := Suc (requests st), received := received st @ issues data\<rparr>) = (st1, False)"
      "budget st1 \<noteq> Some 0" "is_last data" "oc = IsLastPage" "st' = after_page jql ps data st1"
  | data st1 where "budget st \<noteq> Some 0" "srv (requests st) (sent_token (token st)) = Page data"
      "issues data \<noteq> []"
      "save_issues (issues data) (st\<lparr>requests := Suc (requests st), received := received st @ issues data\<rparr>) = (st1, False)"
      "budget st1 \<noteq> Some 0" "\<not> is_last data"
      "fetch_loop fuel srv jql ps (after_page jql ps data st1) = (oc, st')"
  using assms
  by (auto split: if_splits response.splits prod.splits bool.splits)

lemma appended_refl: "appended d d []"
  by (simp add: appended_def item_keys_simps)

lemma appended_same_log:
  "partial d' = partial d \<Longrightarrow> out_json d' = out_json d \<Longrightarrow> appended d d' []"
  by (simp add: appended_def item_keys_simps)

lemma appended_trans:
  assumes "appended d d1 n1" and "appended d1 d2 n2"
  shows "appended d d2 (n1 @ n2)"
proof -
  from assms have p: "partial d2 = partial d @ map Parsed (n1 @ n2)"
    by (simp add: appended_def)
  from assms have dj: "item_keys n2 \<inter> (item_keys (parsed (partial d)) \<union> item_keys n1) = {}"
    by (simp add: appended_def parsed_append parsed_map_Parsed item_keys_simps)
  have t: "list_all (\<lambda>i. truthy (key i)) (n1 @ n2)"
    using assms by (simp add: appended_def)
  have "key ` set n1 \<inter> key ` set n2 = {}"
  proof (rule ccontr)
    assume "key ` set n1 \<inter> key ` set n2 \<noteq> {}"
    then obtain x where x: "x \<in> key ` set n1" "x \<in> key ` set n2" by blast
    then have "truthy x" using t by (auto simp: list_all_iff)
    then obtain k where "x = Some k" "k \<noteq> []" by (auto simp: truthy_def split: option.splits)
    with x have "k \<in> item_keys n1 \<inter> item_keys n2" by (simp add: item_keys_def)
    with dj show False by blast
  qed
  then have ds: "distinct (map key (n1 @ n2))"
    using assms by (simp add: appended_def)
  have "item_keys (n1 @ n2) \<inter> item_keys (parsed (partial d)) = {}"
    using assms dj by (auto simp: appended_def item_keys_simps)
  with p ds t assms show ?thesis by (simp add: appended_def)
qed

lemma save_issues_appended:
  assumes s: "save_issues objs st = (st', intr)" and i: "keys_in_sync st"
  shows "\<exists>new. appended (disk st) (disk st') new" and "keys_in_sync st'"
proof -
  from save_issues_effect [OF s] obtain new where
    n: "partial (disk st') = partial (disk st) @ map Parsed new"
       "distinct (map key new)" "list_all (\<lambda>i. truthy (key i)) new"
       "item_keys new \<inter> saved_keys st = {}"
       "saved_keys st' = saved_keys st \<union> item_keys new"
    by blast
  from save_issues_frame [OF s] have o: "out_json (disk st') = out_json (disk st)" by simp
  from n o i have "appended (disk st) (disk st') new"
    by (simp add: appended_def keys_in_sync_def)
  then show "\<exists>new. appended (disk st) (disk st') new" ..
  from n i show "keys_in_sync st'"
    by (simp add: keys_in_sync_def parsed_append parsed_map_Parsed item_keys_simps)
qed

lemma after_page_log:
  "partial (disk (after_page jql ps data st)) = partial (disk st)"
  "out_json (disk (after_page jql ps data st)) = out_json (disk st)"
  "saved_keys (after_page jql ps data st) = saved_keys st"
  "received (after_page jql ps data st) = received st"
  "checkpoint_file (disk (after_page jql ps data st)) =
     Some \<lparr>cp_jql = jql, cp_page_size = ps, nextPageToken = next_token data,
           saved_unique = card (saved_keys st), page_index = Suc (st_page_index st),
           isLast = is_last data\<rparr>"
  by (simp_all add: after_page_def write_checkpoint_def)

lemma after_page_sync: "keys_in_sync st \<Longrightarrow> keys_in_sync (after_page jql ps data st)"
  by (simp add: keys_in_sync_def after_page_log)

lemma fetch_loop_appended:
  "fetch_loop fuel srv jql ps st = (oc, st') \<Longrightarrow> keys_in_sync st \<Longrightarrow>
     (\<exists>new. appended (disk st) (disk st') new) \<and> keys_in_sync st'"
proof (induction fuel arbitrary: st)
  case 0
  then show ?case using appended_refl by auto
next
  case (Suc fuel)
  from Suc.prems(1) show ?case
  proof (cases rule: fetch_loop_Suc_cases)
    case interrupted
    then show ?thesis using Suc.prems(2) appended_refl by auto
  next
    case retry
    have "keys_in_sync (st\<lparr>token := None, requests := Suc (requests st)\<rparr>)"
      using Suc.prems(2) by (simp add: keys_in_sync_def)
    from Suc.IH [OF retry(4) this] show ?thesis by simp
  next
    case fatal
    then show ?thesis using Suc.prems(2)
      by (auto simp: keys_in_sync_def intro!: exI [of _ "[]"] appended_same_log)
  next
    case (empty data)
    then show ?thesis using Suc.prems(2)
      by (auto simp: keys_in_sync_def intro!: exI [of _ "[]"] appended_same_log)
  next
    case (intr_items data)
    have "keys_in_sync (st\<lparr>requests := Suc (requests st), received := received st @ issues data\<rparr>)"
      using Suc.prems(2) by (simp add: keys_in_sync_def)
    from save_issues_appended [OF intr_items(4) this] show ?thesis by simp
  next
    case (intr_cp data)
    have "keys_in_sync (st\<lparr>requests := Suc (requests st), received := received st @ issues data\<rparr>)"
      using Suc.prems(2) by (simp add: keys_in_sync_def)
    from save_issues_appended [OF intr_cp(4) this] show ?thesis by simp
  next
    case (last data st1)
    have "keys_in_sync (st\<lparr>requests := Suc (requests st), received := received st @ issues data\<rparr>)"
      using Suc.prems(2) by (simp add: keys_in_sync_def)
    from save_issues_appended [OF last(4) this] obtain new where
      a: "appended (disk st) (disk st1) new" and s: "keys_in_sync st1" by auto
    have "appended (disk st1) (disk st') []"
      using last(8) by (auto intro: appended_same_log simp: after_page_log)
    from appended_trans [OF a this] after_page_sync [OF s] last(8) show ?thesis by auto
  next
    case (more data st1)
    have "keys_in_sync (st\<lparr>requests := Suc (requests st), received := received st @ issues data\<rparr>)"
      using Suc.prems(2) by (simp add: keys_in_sync_def)
    from save_issues_appended [OF more(4) this] obtain new where
      a: "appended (disk st) (disk st1) new" and s: "keys_in_sync st1" by auto
    have b: "appended (disk st1) (disk (after_page jql ps data st1)) []"
      by (auto intro: appended_same_log simp: after_page_log)
    from Suc.IH [OF more(7) after_page_sync [OF s]] obtain new2 where
      c: "appended (disk (after_page jql ps data st1)) (disk st') new2" and s': "keys_in_sync st'"
      by auto
    from appended_trans [OF appended_trans [OF a b] c] s' show ?thesis by auto
  qed
qed



lemma fetch_loop_checkpoint:
  "fetch_loop fuel srv jql ps st = (oc, st') \<Longrightarrow>
     (oc = IsLastPage \<longrightarrow> (\<exists>cp. checkpoint_file (disk st') = Some cp \<and> isLast cp))
   \<and> (oc = NoMoreIssues \<longrightarrow>
         checkpoint_file (disk st') = checkpoint_file (disk st)
         \<or> (\<exists>cp. checkpoint_file (disk st') = Some cp \<and> \<not> isLast cp))"
proof (induction fuel arbitrary: st)
  case 0
  then show ?case by simp
next
  case (Suc fuel)
  from Suc.prems(1) show ?case
  proof (cases rule: fetch_loop_Suc_cases)
    case retry
    from Suc.IH [OF retry(4)] show ?thesis by simp
  next
    case (last data st1)
    then show ?thesis by (simp add: after_page_log)
  next
    case (more data st1)
    from Suc.IH [OF more(7)] more(6) show ?thesis by (auto simp: after_page_log)
  qed simp_all
qed



lemma initial_state_simps:
  "disk (initial_state u b d) = d"
  "received (initial_state u b d) = []"
  "keys_in_sync (initial_state u b d)"
  by (simp_all add: initial_state_def keys_in_sync_def load_saved_keys_eq)

lemma fetch_all_appended:
  "fetch_all_basic_resumable fuel srv jql ps u b d = (oc, st') \<Longrightarrow>
     (\<exists>new. appended d (disk st') new) \<and> keys_in_sync st'"
  using fetch_loop_appended [of fuel srv jql ps "initial_state u b d" oc st']
  by (simp add: fetch_all_basic_resumable_def initial_state_simps)













lemma fetch_loop_checkpoint_exact:
  "fetch_loop fuel srv jql ps st = (oc, st') \<Longrightarrow>
     (oc = IsLastPage \<longrightarrow>
        st_page_index st < st_page_index st'
        \<and> checkpoint_file (disk st') =
            Some \<lparr>cp_jql = jql, cp_page_size = ps, nextPageToken = token st',
                  saved_unique = card (saved_keys st'), page_index = st_page_index st',
                  isLast = True\<rparr>)
   \<and> (oc = NoMoreIssues \<longrightarrow>
        (st_page_index st' = st_page_index st \<and> disk st' = disk st
           \<and> saved_keys st' = saved_keys st \<and> (token st' = token st \<or> token st' = None))
        \<or> (st_page_index st < st_page_index st'
            \<and> (\<exists>tok. checkpoint_file (disk st') =
                   Some \<lparr>cp_jql = jql, cp_page_size = ps, nextPageToken = tok,
                         saved_unique = card (saved_keys st'), page_index = st_page_index st',
                         isLast = False\<rparr>
                 \<and> (token st' = tok \<or> token st' = None))))"
proof (induction fuel arbitrary: st)
  case 0
  then show ?case by simp
next
  case (Suc fuel)
  from Suc.prems(1) show ?case
  proof (cases rule: fetch_loop_Suc_cases)
    case retry
    from Suc.IH [OF retry(4)] show ?thesis by auto
  next
    case (empty data)
    then show ?thesis by simp
  next
    case (last data st1)
    from save_issues_frame [OF last(4)] have "st_page_index st1 = st_page_index st" by simp
    with last show ?thesis by (simp add: after_page_def write_checkpoint_def)
  next
    case (more data st1)
    from save_issues_frame [OF more(4)] have i: "st_page_index st1 = st_page_index st" by simp
    let ?st2 = "after_page jql ps data st1"
    have a: "st_page_index ?st2 = Suc (st_page_index st)" "token ?st2 = next_token data"
      "saved_keys ?st2 = saved_keys st1"
      "checkpoint_file (disk ?st2) =
         Some \<lparr>cp_jql = jql, cp_page_size = ps, nextPageToken = next_token data,
               saved_unique = card (saved_keys st1), page_index = Suc (st_page_index st),
               isLast = False\<rparr>"
      using i more(6) by (simp_all add: after_page_def write_checkpoint_def)
    from Suc.IH [OF more(7)] a show ?thesis by auto
  qed simp_all
qed












text \<open>
  Claim C6. When a page request is answered with an HTTP error status and the cursor
  variable is not \<^verbatim>\<open>None\<close>, the loop goes on with the cursor cleared: the next request
  carries no cursor, and the files and the set of known keys are as before. When the
  cursor variable is \<^verbatim>\<open>None\<close>, the run ends with the error. And however a run ends, what
  it has appended to the log are items with usable keys that differ from each other and
  from every key that the log held when the run started.
\<close>

theorem rejected_cursor_restarts:
  "(budget st \<noteq> Some 0 \<and> srv (requests st) (sent_token (token st)) = HTTPError \<and> token st \<noteq> None \<longrightarrow>
      fetch_loop (Suc fuel) srv jql ps st
        = fetch_loop fuel srv jql ps (st\<lparr>token := None, requests := Suc (requests st)\<rparr>)
      \<and> sent_token (token (st\<lparr>token := None, requests := Suc (requests st)\<rparr>)) = None
      \<and> disk (st\<lparr>token := None, requests := Suc (requests st)\<rparr>) = disk st
      \<and> saved_keys (st\<lparr>token := None, requests := Suc (requests st)\<rparr>) = saved_keys st)
   \<and> (budget st \<noteq> Some 0 \<and> srv (requests st) (sent_token (token st)) = HTTPError \<and> token st = None \<longrightarrow>
      fetch_loop (Suc fuel) srv jql ps st = (Fatal, st\<lparr>requests := Suc (requests st)\<rparr>))
   \<and> (fetch_all_basic_resumable n srv jql ps u b d = (oc, st') \<longrightarrow>
        (\<exists>new. appended d (disk st') new))"
  using fetch_all_appended [of n srv jql ps u b d oc st']
  by (auto simp: sent_token_def truthy_def)

text \<open>
  Claim C4, as the code has it. When the loop is left because the is-last flag of a page
  is set, the checkpoint on disk is the one written for that page: it holds the cursor of
  the page, the number of known keys, the number of pages the run has processed, and the
  is-last field true. When a page is empty, the loop is left at once and nothing is
  written for that page: the files are as they were before the request. So after an exit
  on an empty page the files are those of the start of the run when the run has processed
  no page; otherwise the checkpoint on disk is the one written after the last page that
  was not empty: its page index is the number of pages the run has processed, its count
  the number of known keys, its is-last field false, and its cursor is the cursor
  variable of the run unless that has been cleared after a rejection.
\<close>

theorem checkpoint_after_exit:
  "(budget st \<noteq> Some 0 \<and> srv (requests st) (sent_token (token st)) = Page data \<and> issues data = [] \<longrightarrow>
      fetch_loop (Suc n) srv jql ps st = (NoMoreIssues, st\<lparr>requests := Suc (requests st)\<rparr>)
      \<and> disk (st\<lparr>requests := Suc (requests st)\<rparr>) = disk st)
   \<and> (fetch_all_basic_resumable fuel srv jql ps u b d = (oc, st') \<longrightarrow>
        (oc = IsLastPage \<longrightarrow>
           (\<exists>cp. checkpoint_file (disk st') = Some cp \<and> isLast cp)
           \<and> 0 < st_page_index st'
           \<and> checkpoint_file (disk st') =
               Some \<lparr>cp_jql = jql, cp_page_size = ps, nextPageToken = token st',
                     saved_unique = card (saved_keys st'), page_index = st_page_index st',
                     isLast = True\<rparr>)
      \<and> (oc = NoMoreIssues \<longrightarrow>
           (checkpoint_file (disk st') = checkpoint_file d
            \<or> (\<exists>cp. checkpoint_file (disk st') = Some cp \<and> \<not> isLast cp))
           \<and> ((st_page_index st' = 0 \<and> disk st' = d)
               \<or> (0 < st_page_index st'
                   \<and> (\<exists>tok. checkpoint_file (disk st') =
                          Some \<lparr>cp_jql = jql, cp_page_size = ps, nextPageToken = tok,
                                saved_unique = card (saved_keys st'),
                                page_index = st_page_index st', isLast = False\<rparr>
                        \<and> (token st' = tok \<or> token st' = None))))))"
proof -
  have step: "fetch_loop (Suc n) srv jql ps st = (NoMoreIssues, st\<lparr>requests := Suc (requests st)\<rparr>)
      \<and> disk (st\<lparr>requests := Suc (requests st)\<rparr>) = disk st"
    if "budget st \<noteq> Some 0" "srv (requests st) (sent_token (token st)) = Page data" "issues data = []"
    using that by simp
  have run: "(oc = IsLastPage \<longrightarrow>
           (\<exists>cp. checkpoint_file (disk st') = Some cp \<and> isLast cp)
           \<and> 0 < st_page_index st'
           \<and> checkpoint_file (disk st') =
               Some \<lparr>cp_jql = jql, cp_page_size = ps, nextPageToken = token st',
                     saved_unique = card (saved_keys st'), page_index = st_page_index st',
                     isLast = True\<rparr>)
      \<and> (oc = NoMoreIssues \<longrightarrow>
           (checkpoint_file (disk st') = checkpoint_file d
            \<or> (\<exists>cp. checkpoint_file (disk st') = Some cp \<and> \<not> isLast cp))
           \<and> ((st_page_index st' = 0 \<and> disk st' = d)
               \<or> (0 < st_page_index st'
                   \<and> (\<exists>tok. checkpoint_file (disk st') =
                          Some \<lparr>cp_jql = jql, cp_page_size = ps, nextPageToken = tok,
                                saved_unique = card (saved_keys st'),
                                page_index = st_page_index st', isLast = False\<rparr>
                        \<and> (token st' = tok \<or> token st' = None)))))"
    if r: "fetch_all_basic_resumable fuel srv jql ps u b d = (oc, st')"
  proof -
    let ?s = "initial_state u b d"
    have i: "st_page_index ?s = 0" "disk ?s = d" by (simp_all add: initial_state_def)
    from r have "fetch_loop fuel srv jql ps ?s = (oc, st')"
      by (simp add: fetch_all_basic_resumable_def)
    from fetch_loop_checkpoint_exact [OF this] i show ?thesis by auto
  qed
  from step run show ?thesis by blast
qed




text \<open>Claim C6, the theorem at files whose checkpoint holds an expired cursor and whose
  log holds A: the run restarts without cursor, appends B and C only, and is left by
  \<^verbatim>\<open>break\<close>; and at a source that rejects a request without cursor.\<close>

theorem rejected_cursor_restarts_witness:
  "fetch_loop (Suc 9) demo_server (lit ''project = TON'') 2 (initial_state True None stale_fdisk)
     = fetch_loop 9 demo_server (lit ''project = TON'') 2
         ((initial_state True None stale_fdisk)\<lparr>token := None, requests := Suc 0\<rparr>)
   \<and> fetch_loop (Suc 9) rejecting_server (lit ''project = TON'') 2 (initial_state True None empty_fdisk)
     = (Fatal, (initial_state True None empty_fdisk)\<lparr>requests := Suc 0\<rparr>)
   \<and> fst (fetch_all_basic_resumable 10 demo_server (lit ''project = TON'') 2 True None stale_fdisk)
     = NoMoreIssues
   \<and> partial (disk (snd (fetch_all_basic_resumable 10 demo_server (lit ''project = TON'') 2 True None stale_fdisk)))
     = [Parsed (issue_of ''A''), Parsed (issue_of ''B''), Parsed (issue_of ''C'')]
   \<and> (\<exists>new. appended stale_fdisk
         (disk (snd (fetch_all_basic_resumable 10 demo_server (lit ''project = TON'') 2 True None stale_fdisk))) new)"
proof -
  let ?J = "lit ''project = TON''"
  let ?s = "initial_state True None stale_fdisk"
  let ?e = "initial_state True None empty_fdisk"
  let ?R = "fetch_all_basic_resumable 10 demo_server ?J 2 True None stale_fdisk"
  have s: "budget ?s \<noteq> Some 0" "demo_server (requests ?s) (sent_token (token ?s)) = HTTPError"
    "token ?s \<noteq> None" "requests ?s = 0"
    by (simp_all add: initial_state_def stale_fdisk_def demo_server_def sent_token_def truthy_def lit_def)
  have e: "budget ?e \<noteq> Some 0" "rejecting_server (requests ?e) (sent_token (token ?e)) = HTTPError"
    "token ?e = None" "requests ?e = 0"
    by (simp_all add: initial_state_def empty_fdisk_def rejecting_server_def)
  have f: "fst ?R = NoMoreIssues" by code_simp
  have l: "partial (disk (snd ?R)) = [Parsed (issue_of ''A''), Parsed (issue_of ''B''), Parsed (issue_of ''C'')]"
    by code_simp
  have c: "?R = (NoMoreIssues, snd ?R)" using f by (simp add: prod_eq_iff)
  from rejected_cursor_restarts [of ?s demo_server 9 ?J 2 10 True None stale_fdisk NoMoreIssues "snd ?R"]
       rejected_cursor_restarts [of ?e rejecting_server 9 ?J 2 10 True None stale_fdisk NoMoreIssues "snd ?R"]
  show ?thesis using s e f l c by simp
qed

text \<open>Claim C4, the theorem at a source with a single page that carries the is-last flag,
  at the source whose third page is empty (the checkpoint is that of the second page), and
  at a source whose first page is empty, on files left by an earlier run (they stay as
  they are).\<close>

theorem checkpoint_after_exit_witness:
  "fst (fetch_all_basic_resumable 10 single_page_server (lit ''project = TON'') 2 True None empty_fdisk)
     = IsLastPage
   \<and> (\<exists>cp. checkpoint_file (disk (snd (fetch_all_basic_resumable 10 single_page_server
               (lit ''project = TON'') 2 True None empty_fdisk))) = Some cp \<and> isLast cp)
   \<and> fst (fetch_all_basic_resumable 10 demo_server (lit ''project = TON'') 2 True None empty_fdisk)
     = NoMoreIssues
   \<and> checkpoint_file (disk (snd (fetch_all_basic_resumable 10 demo_server
               (lit ''project = TON'') 2 True None empty_fdisk)))
     = Some \<lparr>cp_jql = lit ''project = TON'', cp_page_size = 2, nextPageToken = Some (lit ''t2''),
             saved_unique = 3, page_index = 2, isLast = False\<rparr>
   \<and> fetch_loop (Suc 9) empty_server (lit ''project = TON'') 2 (initial_state True None stale_fdisk)
     = (NoMoreIssues, (initial_state True None stale_fdisk)\<lparr>requests := Suc 0\<rparr>)
   \<and> disk (snd (fetch_all_basic_resumable 10 empty_server (lit ''project = TON'') 2 True None stale_fdisk))
     = stale_fdisk"
proof -
  let ?J = "lit ''project = TON''"
  let ?R = "fetch_all_basic_resumable 10 single_page_server ?J 2 True None empty_fdisk"
  let ?Q = "fetch_all_basic_resumable 10 demo_server ?J 2 True None empty_fdisk"
  let ?E = "fetch_all_basic_resumable 10 empty_server ?J 2 True None stale_fdisk"
  let ?s = "initial_state True None stale_fdisk"
  have r: "fst ?R = IsLastPage" by code_simp
  have q: "fst ?Q = NoMoreIssues" by code_simp
  have e: "fst ?E = NoMoreIssues" by code_simp
  have qi: "st_page_index (snd ?Q) = 2" "card (saved_keys (snd ?Q)) = 3" by code_simp+
  have qc: "checkpoint_file (disk (snd ?Q))
     = Some \<lparr>cp_jql = ?J, cp_page_size = 2, nextPageToken = Some (lit ''t2''),
             saved_unique = 3, page_index = 2, isLast = False\<rparr>" by code_simp
  have ei: "st_page_index (snd ?E) = 0" by code_simp
  have s: "budget ?s \<noteq> Some 0"
    "empty_server (requests ?s) (sent_token (token ?s))
       = Page \<lparr>issues = [], next_token = None, is_last = True\<rparr>"
    "issues \<lparr>issues = [], next_token = None, is_last = True\<rparr> = []" "requests ?s = 0"
    by (simp_all add: initial_state_def empty_server_def)
  have r': "?R = (IsLastPage, snd ?R)" using r by (simp add: prod_eq_iff)
  have q': "?Q = (NoMoreIssues, snd ?Q)" using q by (simp add: prod_eq_iff)
  have e': "?E = (NoMoreIssues, snd ?E)" using e by (simp add: prod_eq_iff)
  let ?P = "\<lparr>issues = [], next_token = None, is_last = True\<rparr>"
  from checkpoint_after_exit [of ?s empty_server ?P 9 ?J 2 10 True None stale_fdisk NoMoreIssues "snd ?E"]
       s e' ei
  have 1: "fetch_loop (Suc 9) empty_server ?J 2 ?s = (NoMoreIssues, ?s\<lparr>requests := Suc 0\<rparr>)"
    and 2: "disk (snd ?E) = stale_fdisk"
    by simp_all
  from checkpoint_after_exit [of ?s single_page_server ?P 9 ?J 2 10 True None empty_fdisk IsLastPage "snd ?R"]
       r'
  have 3: "\<exists>cp. checkpoint_file (disk (snd ?R)) = Some cp \<and> isLast cp"
    by simp
  from checkpoint_after_exit [of ?s demo_server ?P 9 ?J 2 10 True None empty_fdisk NoMoreIssues "snd ?Q"]
       q' qi
  have 4: "\<exists>tok. checkpoint_file (disk (snd ?Q))
     = Some \<lparr>cp_jql = ?J, cp_page_size = 2, nextPageToken = tok,
             saved_unique = 3, page_index = 2, isLast = False\<rparr>"
    by auto
  from r q qc 1 2 3 4 show ?thesis by simp
qed


text \<open>Claim C4 as stated fails: a run is left by \<^verbatim>\<open>break\<close> on the empty third page and
  the checkpoint on disk has the is-last field false; a run whose first page is empty is
  left by \<^verbatim>\<open>break\<close> and there is no checkpoint on disk.\<close>

theorem checkpoint_not_last_counterexample:
  "fst (run_loop demo_run empty_fdisk) = NoMoreIssues
   \<and> map_option isLast (checkpoint_file (disk (snd (run_loop demo_run empty_fdisk)))) = Some False
   \<and> fst (run_loop (demo_run\<lparr>run_server := empty_server\<rparr>) empty_fdisk) = NoMoreIssues
   \<and> checkpoint_file (disk (snd (run_loop (demo_run\<lparr>run_server := empty_server\<rparr>) empty_fdisk))) = None"
  by code_simp


section \<open>Properties of the entity extractor\<close>

text \<open>The equation of \<open>finditer\<close> is unfolded by hand, one step at a time.\<close>

declare finditer.simps [simp del]

lemma takeWhile_length_ge:
  "list_all P (take m xs) \<Longrightarrow> m \<le> length xs \<Longrightarrow> m \<le> length (takeWhile P xs)"
proof (induction xs arbitrary: m)
  case Nil
  then show ?case by simp
next
  case (Cons x xs)
  then show ?case by (cases m) auto
qed

lemma take_takeWhile_all:
  "m \<le> length (takeWhile P xs) \<Longrightarrow> list_all P (take m xs) \<and> m \<le> length xs"
proof (induction xs arbitrary: m)
  case Nil
  then show ?case by simp
next
  case (Cons x xs)
  then show ?case by (cases m) (auto split: if_splits)
qed

lemma class_run_lower:
  assumes "list_all srv_class (slice t j (j + m))" and "j + m \<le> length t" and "m \<le> 10"
  shows "m \<le> class_run t j"
  using takeWhile_length_ge [of srv_class m "drop j t"] assms
  by (simp add: class_run_def slice_def)

lemma class_run_upper:
  assumes "m \<le> class_run t j"
  shows "list_all srv_class (slice t j (j + m))" and "m \<le> 10"
    and "0 < m \<Longrightarrow> j + m \<le> length t"
  using take_takeWhile_all [of m srv_class "drop j t"] assms
  by (auto simp: class_run_def slice_def)

lemma backtrack_sound:
  "backtrack U t j n = Some e \<Longrightarrow> \<exists>m. e = j + m \<and> 2 \<le> m \<and> m \<le> n \<and> at_boundary U t e"
proof (induction n)
  case 0
  then show ?case by simp
next
  case (Suc n)
  then show ?case
    by (auto split: if_splits intro: exI [of _ "Suc n"])
qed

lemma backtrack_complete:
  "2 \<le> m \<Longrightarrow> m \<le> n \<Longrightarrow> at_boundary U t (j + m) \<Longrightarrow>
     \<exists>e. backtrack U t j n = Some e \<and> j + m \<le> e"
proof (induction n)
  case 0
  then show ?case by simp
next
  case (Suc n)
  show ?case
  proof (cases "at_boundary U t (j + Suc n)")
    case True
    then show ?thesis using Suc.prems by auto
  next
    case False
    then have "m \<noteq> Suc n" using Suc.prems by auto
    then have "m \<le> n" using Suc.prems by simp
    from Suc.IH [OF Suc.prems(1) this Suc.prems(3)] False Suc.prems show ?thesis by auto
  qed
qed

lemma match_at_sound: "match_at U t i = Some e \<Longrightarrow> token_match U t i e"
proof -
  assume a: "match_at U t i = Some e"
  then have pre: "at_boundary U t i" "i + 4 \<le> length t" "lit_s (t ! i)" "lit_r (t ! (i + 1))"
      "lit_v (t ! (i + 2))" "t ! (i + 3) = 45"
    and b: "backtrack U t (i + 4) (class_run t (i + 4)) = Some e"
    by (auto simp: match_at_def split: if_splits)
  from backtrack_sound [OF b] obtain m where
    m: "e = i + 4 + m" "2 \<le> m" "m \<le> class_run t (i + 4)" "at_boundary U t e" by auto
  from class_run_upper [OF m(3)] m(2)
  have "list_all srv_class (slice t (i + 4) (i + 4 + m))" "m \<le> 10" "i + 4 + m \<le> length t"
    by auto
  with pre m show ?thesis by (simp add: token_match_def)
qed

lemma match_at_complete:
  assumes "token_match U t i e"
  shows "\<exists>e'. match_at U t i = Some e' \<and> e \<le> e'"
proof -
  let ?m = "e - (i + 4)"
  from assms have e: "e = i + 4 + ?m" by (simp add: token_match_def)
  from assms have "list_all srv_class (slice t (i + 4) (i + 4 + ?m))" "i + 4 + ?m \<le> length t" "?m \<le> 10"
    by (simp_all add: token_match_def)
  from class_run_lower [OF this] have c: "?m \<le> class_run t (i + 4)" .
  from assms have "2 \<le> ?m" "at_boundary U t (i + 4 + ?m)" by (simp_all add: token_match_def)
  from backtrack_complete [OF this(1) c this(2)] obtain e' where
    "backtrack U t (i + 4) (class_run t (i + 4)) = Some e'" "i + 4 + ?m \<le> e'" by auto
  with assms e show ?thesis by (auto simp: match_at_def token_match_def)
qed

lemma token_match_bounds: "token_match U t i e \<Longrightarrow> i + 6 \<le> e \<and> e \<le> length t"
  by (auto simp: token_match_def)

lemma finditer_sound:
  "(i, e) \<in> set (finditer U t j) \<Longrightarrow> j \<le> i \<and> token_match U t i e"
proof (induction U t j rule: finditer.induct)
  case (1 U t j)
  show ?case
  proof (cases "length t \<le> j")
    case True
    with "1.prems" show ?thesis by (simp add: finditer.simps)
  next
    case False
    show ?thesis
    proof (cases "match_at U t j")
      case None
      with False "1.prems" have "(i, e) \<in> set (finditer U t (Suc j))"
        by (simp add: finditer.simps [of U t j])
      from "1.IH"(1) [OF False None this] show ?thesis by simp
    next
      case (Some e0)
      with False "1.prems" have "(i, e) = (j, e0) \<or> (i, e) \<in> set (finditer U t e0)"
        by (simp add: finditer.simps [of U t j])
      then show ?thesis
      proof
        assume "(i, e) = (j, e0)"
        with match_at_sound [OF Some] show ?thesis by simp
      next
        assume "(i, e) \<in> set (finditer U t e0)"
        from "1.IH"(2) [OF False Some this] token_match_bounds [OF match_at_sound [OF Some]]
        show ?thesis by simp
      qed
    qed
  qed
qed

lemma finditer_ordered:
  "sorted_wrt (\<lambda>a b. snd a \<le> fst b) (finditer U t j)"
proof (induction U t j rule: finditer.induct)
  case (1 U t j)
  show ?case
  proof (cases "length t \<le> j")
    case True
    then show ?thesis by (simp add: finditer.simps)
  next
    case False
    show ?thesis
    proof (cases "match_at U t j")
      case None
      with False "1.IH"(1) show ?thesis by (simp add: finditer.simps [of U t j])
    next
      case (Some e0)
      have "\<forall>b\<in>set (finditer U t e0). e0 \<le> fst b"
        using finditer_sound [of _ _ U t e0] by auto
      with False Some "1.IH"(2) show ?thesis by (simp add: finditer.simps [of U t j])
    qed
  qed
qed

lemma finditer_complete:
  "token_match U t i e \<Longrightarrow> j \<le> i \<Longrightarrow>
     \<exists>(i', e') \<in> set (finditer U t j). i' \<le> i \<and> i < e' \<and> (i' = i \<longrightarrow> e \<le> e')"
proof (induction U t j rule: finditer.induct)
  case (1 U t j)
  from token_match_bounds [OF "1.prems"(1)] "1.prems"(2) have False: "\<not> length t \<le> j" by simp
  show ?case
  proof (cases "match_at U t j")
    case None
    with match_at_complete [OF "1.prems"(1)] have "i \<noteq> j" by auto
    with "1.prems"(2) have "Suc j \<le> i" by simp
    from "1.IH"(1) [OF False None "1.prems"(1) this] False None
    show ?thesis by (simp add: finditer.simps [of U t j])
  next
    case (Some e0)
    have f: "finditer U t j = (j, e0) # finditer U t e0"
      using False Some by (simp add: finditer.simps [of U t j])
    show ?thesis
    proof (cases "i < e0")
      case True
      have "j = i \<longrightarrow> e \<le> e0"
        using match_at_complete [OF "1.prems"(1)] Some by auto
      with True "1.prems"(2) show ?thesis by (simp add: f)
    next
      case False
      then have "e0 \<le> i" by simp
      from "1.IH"(2) [OF \<open>\<not> length t \<le> j\<close> Some "1.prems"(1) this]
      show ?thesis by (auto simp: f)
    qed
  qed
qed

lemma slice_split4:
  assumes "i + 4 \<le> e" and "e \<le> length t"
  shows "slice t i e = t ! i # t ! (i + 1) # t ! (i + 2) # t ! (i + 3) # slice t (i + 4) e"
proof -
  from assms obtain m where e: "e = i + 4 + m" by (metis le_Suc_ex)
  have d: "k < length t \<Longrightarrow> drop k t = t ! k # drop (Suc k) t" for k
    by (simp add: Cons_nth_drop_Suc)
  have "drop i t = t ! i # t ! (i + 1) # t ! (i + 2) # t ! (i + 3) # drop (i + 4) t"
    using assms d [of i] d [of "Suc i"] d [of "Suc (Suc i)"] d [of "Suc (Suc (Suc i))"]
    by (simp add: numeral_eq_Suc)
  then show ?thesis by (simp add: slice_def e numeral_eq_Suc)
qed

lemma is_ascii_slice: "is_ascii t \<Longrightarrow> is_ascii (slice t i e)"
  by (auto simp: is_ascii_def slice_def list_all_iff dest!: in_set_takeD in_set_dropD)

lemma token_match_ascii_lower:
  assumes m: "token_match U t i e" and a: "is_ascii t"
  shows "\<exists>w. py_lower U (slice t i e) = lit ''srv-'' @ w \<and> 2 \<le> length w \<and> length w \<le> 10
           \<and> list_all lower_alnum w"
proof -
  let ?w = "slice t (i + 4) e"
  from m have b: "i + 4 \<le> e" "e \<le> length t" by (simp_all add: token_match_def)
  have s: "slice t i e = t ! i # t ! (i + 1) # t ! (i + 2) # t ! (i + 3) # ?w"
    by (rule slice_split4 [OF b])
  from a b have lt: "t ! i < 128" "t ! (i + 1) < 128" "t ! (i + 2) < 128"
    by (simp_all add: is_ascii_def list_all_length)
  with m have c: "ascii_lower (t ! i) = 115" "ascii_lower (t ! (i + 1)) = 114"
      "ascii_lower (t ! (i + 2)) = 118" "ascii_lower (t ! (i + 3)) = 45"
    by (auto simp: token_match_def lit_s_def lit_r_def lit_v_def ascii_lower_def)
  have p: "py_lower U (slice t i e) = map ascii_lower (slice t i e)"
    using is_ascii_slice [OF a] by (simp add: py_lower_def)
  have wa: "is_ascii ?w" by (rule is_ascii_slice [OF a])
  from m have wc: "list_all srv_class ?w" by (simp add: token_match_def)
  have el: "srv_class c \<Longrightarrow> c < 128 \<Longrightarrow> lower_alnum (ascii_lower c)" for c
    by (auto simp: srv_class_def ascii_alnum_def ascii_lower_def lower_alnum_def)
  have "list_all lower_alnum (map ascii_lower ?w)"
    using wa wc el by (simp add: list_all_iff is_ascii_def)
  moreover have "length ?w = e - (i + 4)" using b by (simp add: slice_def)
  moreover have "map ascii_lower (slice t i e) = lit ''srv-'' @ map ascii_lower ?w"
    using c by (subst s) (simp add: lit_def)
  then have "py_lower U (slice t i e) = lit ''srv-'' @ map ascii_lower ?w"
    by (simp only: p)
  ultimately show ?thesis using m by (auto simp: token_match_def)
qed

lemma finditer_empty: "finditer U [] 0 = []"
  by (simp add: finditer.simps)

lemma extract_servers_example:
  "extract_servers U (lit ''srv-ab1 mentions srv-AB1 too'') = [lit ''srv-ab1'', lit ''srv-ab1'']"
  by (simp add: extract_servers_def finditer.simps lit_def match_at_def at_boundary_def is_word_def
        ascii_alnum_def lit_s_def lit_r_def lit_v_def srv_class_def class_run_def slice_def
        py_lower_def is_ascii_def ascii_lower_def)

text \<open>
  Claim C7, as the code has it. For every text the extractor returns the lower-cased texts
  of the spans that \<^verbatim>\<open>finditer\<close> finds, one result per span, repeats kept. Every span
  is a whole-token match: the literal prefix in any case, the separator, and a suffix of
  two to ten characters of the class, between word boundaries. The spans are in text
  order and do not overlap. The scan goes from left to right and resumes at the end of
  each match, so every whole-token match is found unless it starts inside a match found
  before it: a whole-token match at position \<open>i\<close> lies in a reported span that starts at
  or before \<open>i\<close>, and when that span starts at \<open>i\<close> it reaches at least as far. For an
  ASCII text every result is \<^verbatim>\<open>srv-\<close> followed by two to ten digits and small letters.
  The empty text gives the empty list, and the text
  \<^verbatim>\<open>srv-ab1 mentions srv-AB1 too\<close> gives \<^verbatim>\<open>srv-ab1\<close> twice.
\<close>

theorem extract_servers_scan:
  "extract_servers U t = map (\<lambda>(i, e). py_lower U (slice t i e)) (finditer U t 0)
   \<and> (\<forall>(i, e) \<in> set (finditer U t 0). token_match U t i e)
   \<and> sorted_wrt (\<lambda>a b. snd a \<le> fst b) (finditer U t 0)
   \<and> (\<forall>i e. token_match U t i e \<longrightarrow>
         (\<exists>(i', e') \<in> set (finditer U t 0). i' \<le> i \<and> i < e' \<and> (i' = i \<longrightarrow> e \<le> e')))
   \<and> (is_ascii t \<longrightarrow>
         (\<forall>s \<in> set (extract_servers U t).
            \<exists>w. s = lit ''srv-'' @ w \<and> 2 \<le> length w \<and> length w \<le> 10 \<and> list_all lower_alnum w))
   \<and> extract_servers U [] = []
   \<and> extract_servers U (lit ''srv-ab1 mentions srv-AB1 too'') = [lit ''srv-ab1'', lit ''srv-ab1'']"
proof -
  have 1: "extract_servers U t = map (\<lambda>(i, e). py_lower U (slice t i e)) (finditer U t 0)"
    by (simp add: extract_servers_def finditer_empty)
  have 2: "\<forall>(i, e) \<in> set (finditer U t 0). token_match U t i e"
    using finditer_sound [of _ _ U t 0] by auto
  have 3: "sorted_wrt (\<lambda>a b. snd a \<le> fst b) (finditer U t 0)"
    by (rule finditer_ordered)
  have 4: "\<forall>i e. token_match U t i e \<longrightarrow>
         (\<exists>(i', e') \<in> set (finditer U t 0). i' \<le> i \<and> i < e' \<and> (i' = i \<longrightarrow> e \<le> e'))"
    using finditer_complete [of U t _ _ 0] by simp
  have 5: "\<exists>w. s = lit ''srv-'' @ w \<and> 2 \<le> length w \<and> length w \<le> 10 \<and> list_all lower_alnum w"
    if a: "is_ascii t" and s: "s \<in> set (extract_servers U t)" for s
  proof -
    from s 1 obtain i e where ie: "(i, e) \<in> set (finditer U t 0)" "s = py_lower U (slice t i e)"
      by auto
    from 2 ie(1) have "token_match U t i e" by auto
    from token_match_ascii_lower [OF this a] ie(2) show ?thesis by simp
  qed
  have 6: "extract_servers U [] = []" by (simp add: extract_servers_def)
  from 1 2 3 4 5 6 extract_servers_example show ?thesis by blast
qed

text \<open>Claim C7, the theorem at the text \<^verbatim>\<open>see srv-db01, SRV-Cache9.\<close>: two spans, both
  whole-token matches, and two lower-cased results.\<close>

theorem extract_servers_scan_witness:
  "is_ascii sample_text
   \<and> token_match ascii_ucd sample_text 4 12
   \<and> finditer ascii_ucd sample_text 0 = [(4, 12), (14, 24)]
   \<and> extract_servers ascii_ucd sample_text = [lit ''srv-db01'', lit ''srv-cache9'']
   \<and> sorted_wrt (\<lambda>a b. snd a \<le> fst b) (finditer ascii_ucd sample_text 0)
   \<and> (\<exists>i' e'. (i', e') \<in> set (finditer ascii_ucd sample_text 0) \<and> i' \<le> 4 \<and> 4 < e' \<and> 12 \<le> e')
   \<and> (\<exists>w. lit ''srv-cache9'' = lit ''srv-'' @ w \<and> 2 \<le> length w \<and> length w \<le> 10
          \<and> list_all lower_alnum w)"
proof -
  have a: "is_ascii sample_text" by code_simp
  have m: "token_match ascii_ucd sample_text 4 12" by code_simp
  have f: "finditer ascii_ucd sample_text 0 = [(4, 12), (14, 24)]" by code_simp
  have x: "extract_servers ascii_ucd sample_text = [lit ''srv-db01'', lit ''srv-cache9'']"
    by code_simp
  note t = extract_servers_scan [of ascii_ucd sample_text]
  from t have o: "sorted_wrt (\<lambda>a b. snd a \<le> fst b) (finditer ascii_ucd sample_text 0)"
    by blast
  from t m
  have "\<exists>(i', e') \<in> set (finditer ascii_ucd sample_text 0). i' \<le> 4 \<and> 4 < e' \<and> (i' = 4 \<longrightarrow> 12 \<le> e')"
    by blast
  then have c: "\<exists>i' e'. (i', e') \<in> set (finditer ascii_ucd sample_text 0) \<and> i' \<le> 4 \<and> 4 < e' \<and> 12 \<le> e'"
    unfolding f by (intro exI [of _ 4] exI [of _ 12]) simp
  from t a
  have "\<forall>s \<in> set (extract_servers ascii_ucd sample_text).
         \<exists>w. s = lit ''srv-'' @ w \<and> 2 \<le> length w \<and> length w \<le> 10 \<and> list_all lower_alnum w"
    by blast
  then have w: "\<exists>w. lit ''srv-cache9'' = lit ''srv-'' @ w \<and> 2 \<le> length w \<and> length w \<le> 10
          \<and> list_all lower_alnum w"
    unfolding x by simp
  from a m f x o c w show ?thesis by blast
qed

text \<open>Claim C7 as stated fails: in \<^verbatim>\<open>srv-srv-ab\<close> the span from 4 to 10 is a
  whole-token match with the text \<^verbatim>\<open>srv-ab\<close>, but it starts inside the match
  \<^verbatim>\<open>srv-srv\<close>, which is the only result.\<close>

theorem overlapping_match_counterexample:
  "token_match ascii_ucd (lit ''srv-srv-ab'') 4 10
   \<and> py_lower ascii_ucd (slice (lit ''srv-srv-ab'') 4 10) = lit ''srv-ab''
   \<and> extract_servers ascii_ucd (lit ''srv-srv-ab'') = [lit ''srv-srv'']
   \<and> lit ''srv-ab'' \<notin> set (extract_servers ascii_ucd (lit ''srv-srv-ab''))"
  by code_simp

end
